theory Spec2Isabelle
  imports Main
begin

section \<open>Python values, exceptions and effects\<close>

text \<open>
  The values that travel through a notification payload are JSON-like Python values.
  Numbers are integers here; floating-point numbers are outside the model. A dictionary
  is an association list whose first entry for a key is the one \<open>dict.get\<close> finds.
\<close>

datatype pyval =
    PNone
  | PBool bool
  | PInt int
  | PStr string
  | PList "pyval list"
  | PDict "(string \<times> pyval) list"

text \<open>
  The exceptions of the two programs. Every constructor stands for an instance of a
  subclass of Python's \<open>Exception\<close>; \<open>CalledProcessError\<close> carries the return code,
  the command and the captured output streams (\<open>None\<close> when nothing was captured).
\<close>

datatype exc =
    AttributeError
  | CalledProcessError int string "string option" "string option"
  | OSError
  | OtherError string

text \<open>
  One constructor per \<open>print\<close> statement of the sources, carrying the values the
  statement interpolates into its text.
\<close>

datatype line =
    NewUserCreated pyval
  | SendingWelcomeEmail pyval
  | EmailChanged pyval
  | UserDeleted pyval
  | AnalyticsFailed exc
  | AnalyticsLine pyval
  | UserEventLine pyval
  | MonitorLine string pyval pyval
  | Banner
  | TestingHeader string string
  | BuildingImage string
  | BuildFailed
  | RunningTests
  | ComboFailed string string
  | ComboPassed string string
  | CheckingPostgres
  | PostgresNotRunning
  | PostgresHint
  | ContinuingAfterFailure string string
  | SummaryTitle
  | SummaryLine string string bool
  | TotalLine nat nat
  | AllPassed
  | SomeFailed nat

text \<open>The text written into a temporary Dockerfile: the template with both versions filled in.\<close>

datatype dockerfile = Dockerfile string string

text \<open>
  What the programs can change: the lines printed so far, the shell commands run so
  far, the temporary files that exist and the number of temporary files created.
\<close>

record world =
  console :: "line list"
  shell_log :: "string list"
  files :: "(string \<times> dockerfile) list"
  created :: nat

text \<open>
  A statement is a function from the world to an outcome (an exception raised, or a
  value returned) and the world it leaves.
\<close>

type_synonym 'a prog = "world \<Rightarrow> (exc + 'a) \<times> world"

definition ret :: "'a \<Rightarrow> 'a prog" where
  "ret x w = (Inr x, w)"

definition raise_exc :: "exc \<Rightarrow> 'a prog" where
  "raise_exc e w = (Inl e, w)"

definition io_bind :: "'a prog \<Rightarrow> ('a \<Rightarrow> 'b prog) \<Rightarrow> 'b prog" where
  "io_bind m f w = (case m w of (Inl e, w') \<Rightarrow> (Inl e, w') | (Inr x, w') \<Rightarrow> f x w')"

definition call :: "exc + 'a \<Rightarrow> 'a prog" where
  "call r w = (r, w)"

definition print_line :: "line \<Rightarrow> unit prog" where
  "print_line l w = (Inr (), w\<lparr>console := console w @ [l]\<rparr>)"

text \<open>\<open>try: body except Exception as e: h e\<close>\<close>

definition try_except :: "'a prog \<Rightarrow> (exc \<Rightarrow> 'a prog) \<Rightarrow> 'a prog" where
  "try_except body h w = (case body w of (Inl e, w') \<Rightarrow> h e w' | (Inr x, w') \<Rightarrow> (Inr x, w'))"


subsection \<open>Python's operators on values\<close>

text \<open>Truth value testing, as \<open>or\<close> uses it.\<close>

fun truthy :: "pyval \<Rightarrow> bool" where
  "truthy PNone = False"
| "truthy (PBool b) = b"
| "truthy (PInt i) = (i \<noteq> 0)"
| "truthy (PStr s) = (s \<noteq> [])"
| "truthy (PList xs) = (xs \<noteq> [])"
| "truthy (PDict kvs) = (kvs \<noteq> [])"

text \<open>
  \<open>==\<close> on two strings is equality of the strings, and a string equals no value of
  another type. These are the only comparisons against a literal that the consumers
  make.
\<close>

definition eq_str :: "pyval \<Rightarrow> string \<Rightarrow> bool" where
  "eq_str v s = (v = PStr s)"

text \<open>
  \<open>v.get(k)\<close>: a dictionary answers with the value or \<open>None\<close>; \<open>None\<close>, booleans,
  integers, strings and lists have no attribute \<open>get\<close>.
\<close>

fun py_get :: "pyval \<Rightarrow> string \<Rightarrow> exc + pyval" where
  "py_get (PDict kvs) k = Inr (case map_of kvs k of None \<Rightarrow> PNone | Some v \<Rightarrow> v)"
| "py_get _ k = Inl AttributeError"

text \<open>
  \<open>==\<close> on two values: \<open>True\<close> and \<open>False\<close> equal the integers 1 and 0, lists are
  compared element by element, and two dictionaries are equal when they have as many
  entries and every key of the first has an equal value in the second.
\<close>

function py_eq :: "pyval \<Rightarrow> pyval \<Rightarrow> bool" where
  "py_eq PNone b = (b = PNone)"
| "py_eq (PBool x) b =
     (case b of PBool y \<Rightarrow> x = y | PInt j \<Rightarrow> (if x then 1 else 0) = j | _ \<Rightarrow> False)"
| "py_eq (PInt i) b =
     (case b of PBool y \<Rightarrow> i = (if y then 1 else 0) | PInt j \<Rightarrow> i = j | _ \<Rightarrow> False)"
| "py_eq (PStr s) b = (b = PStr s)"
| "py_eq (PList xs) b = (case b of PList ys \<Rightarrow> list_all2 py_eq xs ys | _ \<Rightarrow> False)"
| "py_eq (PDict kvs) b =
     (case b of
        PDict kws \<Rightarrow>
          length kvs = length kws \<and>
          list_all (\<lambda>(k, v). case map_of kws k of None \<Rightarrow> False | Some w \<Rightarrow> py_eq v w) kvs
      | _ \<Rightarrow> False)"
  by pat_completeness auto
termination
proof (relation "measure (\<lambda>(a, b). size a)", goal_cases)
  case 1
  show ?case by simp
next
  case (2 xs b ys z y)
  have "size z \<le> size_list size xs"
    using 2 by (auto intro: size_list_estimation')
  then show ?case by simp
next
  case (3 kvs b kws kv k v w)
  have "size_prod (\<lambda>x. 0) size (k, v) \<le> size_list (size_prod (\<lambda>x. 0) size) kvs"
    using 3 by (auto intro: size_list_estimation')
  then show ?case by simp
qed

section \<open>The example consumers (example_project/consumers.py)\<close>

text \<open>
  The handler a consumer receives is an object of the engine's \<open>NotificationHandler\<close>
  class, which the consumers only use through its attributes and accessor methods. It is
  taken here as what those attribute reads and calls yield: a value, or an exception.
  The accessors are pure functions of the payload, so a repeated call yields the same.
\<close>

record handler =
  channel :: "exc + pyval"
  data :: "exc + pyval"
  timestamp :: "exc + pyval"
  get_table :: "exc + pyval"
  get_action :: "exc + pyval"
  get_record_id :: "exc + pyval"
  get_old_data :: "exc + pyval"
  get_new_data :: "exc + pyval"

subsection \<open>UserChangeConsumer\<close>

definition send_welcome_email :: "pyval \<Rightarrow> unit prog" where
  "send_welcome_email user_data =
     io_bind (call (py_get user_data ''email'')) (\<lambda>email.
     print_line (SendingWelcomeEmail email))"

definition UserChangeConsumer_handle_notification :: "handler \<Rightarrow> unit prog" where
  "UserChangeConsumer_handle_notification h =
     io_bind (call (get_table h)) (\<lambda>table.
     if \<not> eq_str table ''auth_user'' then ret ()
     else
       io_bind (call (get_action h)) (\<lambda>action.
       io_bind (call (get_new_data h)) (\<lambda>nd.
       io_bind (if truthy nd then ret nd else call (get_old_data h)) (\<lambda>user_data.
       if eq_str action ''INSERT'' then
         io_bind (call (py_get user_data ''username'')) (\<lambda>username.
         io_bind (print_line (NewUserCreated username)) (\<lambda>_.
         send_welcome_email user_data))
       else if eq_str action ''UPDATE'' then
         io_bind (call (get_old_data h)) (\<lambda>old_data.
         io_bind (call (get_new_data h)) (\<lambda>new_data.
         io_bind (call (py_get old_data ''email'')) (\<lambda>old_email.
         io_bind (call (py_get new_data ''email'')) (\<lambda>new_email.
         if \<not> py_eq old_email new_email then
           io_bind (call (py_get new_data ''username'')) (\<lambda>username.
           print_line (EmailChanged username))
         else ret ()))))
       else if eq_str action ''DELETE'' then
         io_bind (call (py_get user_data ''username'')) (\<lambda>username.
         print_line (UserDeleted username))
       else ret ()))))"

subsection \<open>AnalyticsConsumer\<close>

definition track_database_change :: "handler \<Rightarrow> unit prog" where
  "track_database_change h =
     io_bind (call (get_table h)) (\<lambda>table.
     io_bind (call (get_action h)) (\<lambda>action.
     io_bind (call (get_record_id h)) (\<lambda>record_id.
     io_bind (call (timestamp h)) (\<lambda>ts.
     print_line (AnalyticsLine (PDict
       [(''event_type'', PStr ''database_change''),
        (''table'', table),
        (''action'', action),
        (''record_id'', record_id),
        (''timestamp'', ts)]))))))"

definition track_user_event :: "handler \<Rightarrow> unit prog" where
  "track_user_event h =
     io_bind (call (data h)) (\<lambda>event_data.
     print_line (UserEventLine event_data))"

definition AnalyticsConsumer_handle_notification :: "handler \<Rightarrow> unit prog" where
  "AnalyticsConsumer_handle_notification h =
     try_except
       (io_bind (call (channel h)) (\<lambda>ch.
        if eq_str ch ''data_change'' then track_database_change h
        else if eq_str ch ''user_events'' then track_user_event h
        else ret ()))
       (\<lambda>e. print_line (AnalyticsFailed e))"

subsection \<open>create_table_monitor\<close>

text \<open>
  A consumer class as the engine reads it: its identifier, its channels and its
  callback. \<open>MonitorLine table_name action record_id\<close> is the line
  \<open>print(f"{table_name.title()} {action}: ID {record_id}")\<close>.
\<close>

record consumer =
  consumer_id :: string
  channels :: "string list"
  handle_notification :: "handler \<Rightarrow> unit prog"

definition create_table_monitor :: "string \<Rightarrow> consumer" where
  "create_table_monitor table_name =
     \<lparr>consumer_id = table_name @ ''_monitor'',
      channels = [''data_change''],
      handle_notification = (\<lambda>h.
        io_bind (call (get_table h)) (\<lambda>table.
        if eq_str table table_name then
          io_bind (call (get_action h)) (\<lambda>action.
          io_bind (call (get_record_id h)) (\<lambda>record_id.
          print_line (MonitorLine table_name action record_id)))
        else ret ()))\<rparr>"

section \<open>The test-matrix harness (test-matrix-docker.py)\<close>




















section \<open>The notification dispatch engine\<close>

text \<open>
  The engine itself (the package \<open>django_pgwatch\<close> that the consumers import) is not among
  the sources. Every definition of this section is therefore written from the
  specification's sections 3, 4 and 6.
\<close>

text \<open>
  Modelled from the spec: the error taxonomy of section 7, as far as the store and the
  registry raise it; \<open>ConfigurationError\<close> is the unrecoverable configuration error.
\<close>

datatype engine_error = PersistenceError | CheckpointError | ConfigurationError

text \<open>
  Modelled from the spec: the Notification of section 3 (\<open>channel_n\<close> is its field
  \<open>channel\<close>).
\<close>

record notification =
  sequence :: nat
  channel_n :: string
  payload :: pyval
  created_at :: nat

text \<open>
  Modelled from the spec: the OutboxStore of section 4.1. \<open>last_sequence c\<close> is the highest
  sequence ever assigned on \<open>c\<close>; it outlives trimming, since sequence numbers are never
  reused. \<open>available\<close> says whether the storage can be reached.
\<close>

record outbox =
  rows :: "notification list"
  last_sequence :: "string \<Rightarrow> nat"
  available :: bool

definition empty_outbox :: outbox where
  "empty_outbox = \<lparr>rows = [], last_sequence = (\<lambda>c. 0), available = True\<rparr>"

text \<open>
  Modelled from the spec: \<open>append(channel, payload) -> sequence\<close>, which fails with
  \<open>PersistenceError\<close> when the storage is unavailable and otherwise assigns the next
  sequence of the channel together with the write.
\<close>

definition outbox_append ::
  "outbox \<Rightarrow> string \<Rightarrow> pyval \<Rightarrow> nat \<Rightarrow> (engine_error + nat) \<times> outbox" where
  "outbox_append s c p now =
     (if \<not> available s then (Inl PersistenceError, s)
      else
        (let n = Suc (last_sequence s c) in
         (Inr n,
          s\<lparr>rows := rows s @ [\<lparr>sequence = n, channel_n = c, payload = p, created_at = now\<rparr>],
            last_sequence := (last_sequence s)(c := n)\<rparr>)))"

text \<open>
  Modelled from the spec: \<open>read_range(channel, after_sequence, limit)\<close>, the notifications of
  the channel past \<open>after_sequence\<close> in ascending order of sequence, at most \<open>limit\<close> of them
  (\<open>None\<close> is no limit); it fails like \<open>append\<close>.
\<close>

definition read_range ::
  "outbox \<Rightarrow> string \<Rightarrow> nat \<Rightarrow> nat option \<Rightarrow> engine_error + notification list" where
  "read_range s c after_sequence limit =
     (if \<not> available s then Inl PersistenceError
      else
        (let found = sort_key sequence
               (filter (\<lambda>n. channel_n n = c \<and> after_sequence < sequence n) (rows s))
         in Inr (case limit of None \<Rightarrow> found | Some k \<Rightarrow> take k found)))"

text \<open>Modelled from the spec: \<open>max_sequence(channel)\<close>.\<close>

definition max_sequence :: "outbox \<Rightarrow> string \<Rightarrow> nat" where
  "max_sequence s c = last_sequence s c"

text \<open>
  Modelled from the spec: the ingestion entry point \<open>publish(channel, payload) -> sequence\<close>
  of section 6, durable before it returns.
\<close>

definition publish ::
  "outbox \<Rightarrow> string \<Rightarrow> pyval \<Rightarrow> nat \<Rightarrow> (engine_error + nat) \<times> outbox" where
  "publish s c p now = outbox_append s c p now"

text \<open>
  Modelled from the spec: the registration record \<open>{consumer_id, channels, callback}\<close> of
  sections 3 and 9. A callback sees the notification and the replay flag, and either
  returns (\<open>None\<close>) or raises.
\<close>

record registration =
  r_consumer_id :: string
  r_channels :: "string list"
  r_callback :: "notification \<Rightarrow> bool \<Rightarrow> exc option"

text \<open>
  Modelled from the spec: the ConsumerRegistry of section 4.2, with the cursor of each
  (consumer, channel) pair and the log of rejected checkpoint advances.
\<close>

record registry =
  registrations :: "registration list"
  checkpoints :: "string \<times> string \<Rightarrow> nat option"
  rejected :: "(string \<times> string \<times> nat) list"

definition empty_registry :: registry where
  "empty_registry = \<lparr>registrations = [], checkpoints = (\<lambda>k. None), rejected = []\<rparr>"

text \<open>
  Modelled from the spec: \<open>checkpoint(consumer_id, channel)\<close>; a pair without a cursor is at
  the floor, zero.
\<close>

definition checkpoint :: "registry \<Rightarrow> string \<Rightarrow> string \<Rightarrow> nat" where
  "checkpoint reg cid c = (case checkpoints reg (cid, c) of None \<Rightarrow> 0 | Some n \<Rightarrow> n)"

text \<open>
  Modelled from the spec: \<open>advance_checkpoint(consumer_id, channel, sequence)\<close>, which fails
  with \<open>CheckpointError\<close> if the sequence is below the current checkpoint; the violation
  is logged and rejected.
\<close>

definition advance_checkpoint ::
  "registry \<Rightarrow> string \<Rightarrow> string \<Rightarrow> nat \<Rightarrow> (engine_error + unit) \<times> registry" where
  "advance_checkpoint reg cid c n =
     (if n < checkpoint reg cid c
      then (Inl CheckpointError, reg\<lparr>rejected := rejected reg @ [(cid, c, n)]\<rparr>)
      else (Inr (), reg\<lparr>checkpoints := (checkpoints reg)((cid, c) := Some n)\<rparr>))"

text \<open>Modelled from the spec: \<open>subscribers_for(channel)\<close>, in the order of registration.\<close>

definition subscribers_for :: "registry \<Rightarrow> string \<Rightarrow> string list" where
  "subscribers_for reg c =
     map r_consumer_id (filter (\<lambda>r. c \<in> set (r_channels r)) (registrations reg))"

text \<open>
  Modelled from the spec: \<open>register(consumer_id, channels, replay_from)\<close>. A registration
  replaces an earlier one of the same consumer and keeps every cursor that exists; a
  channel without a cursor starts at zero (\<open>EARLIEST\<close>) or at the channel's maximum
  sequence (\<open>CURRENT\<close>). The set of channels must not be empty.
\<close>

datatype replay_from = EARLIEST | CURRENT

definition register ::
  "outbox \<Rightarrow> registry \<Rightarrow> registration \<Rightarrow> replay_from \<Rightarrow> engine_error + registry" where
  "register s reg r rf =
     (if r_channels r = [] then Inl ConfigurationError
      else
        Inr (reg\<lparr>registrations :=
                   filter (\<lambda>x. r_consumer_id x \<noteq> r_consumer_id r) (registrations reg) @ [r],
                 checkpoints := (\<lambda>(cid, c).
                   if cid = r_consumer_id r \<and> c \<in> set (r_channels r)
                      \<and> checkpoints reg (cid, c) = None
                   then Some (case rf of EARLIEST \<Rightarrow> 0 | CURRENT \<Rightarrow> max_sequence s c)
                   else checkpoints reg (cid, c))\<rparr>))"

text \<open>
  Modelled from the spec: the minimum checkpoint across all registered consumers on a
  channel; there is none when the channel has no consumer.
\<close>

definition min_checkpoint :: "registry \<Rightarrow> string \<Rightarrow> nat option" where
  "min_checkpoint reg c =
     (case subscribers_for reg c of
        [] \<Rightarrow> None
      | cid # cids \<Rightarrow> Some (fold (\<lambda>i m. min (checkpoint reg i c) m) cids (checkpoint reg cid c)))"

text \<open>
  Modelled from the spec: \<open>trim(channel, before_sequence)\<close>, which removes the notifications
  of the channel older than the boundary, and of those only the ones at or below the
  minimum checkpoint of the channel's consumers.
\<close>

definition trim :: "registry \<Rightarrow> outbox \<Rightarrow> string \<Rightarrow> nat \<Rightarrow> outbox" where
  "trim reg s c before_sequence =
     s\<lparr>rows := filter
         (\<lambda>n. \<not> (channel_n n = c \<and> sequence n < before_sequence
                  \<and> (case min_checkpoint reg c of None \<Rightarrow> True | Some m \<Rightarrow> sequence n \<le> m)))
         (rows s)\<rparr>"

text \<open>
  Modelled from the spec: the per-consumer outcome of a delivery (section 4.5), and the
  engine: the store, the registry, the log of consumer failures and the batch size of
  the replay.
\<close>

datatype outcome = Delivered | Failed exc | Rejected engine_error

record engine =
  store :: outbox
  registry :: registry
  failure_log :: "(string \<times> string \<times> nat \<times> exc) list"
  batch_size :: nat

text \<open>
  Modelled from the spec: the Dispatcher's invocation of one consumer, wrapped on its own.
  A failure of the callback is logged with consumer, channel, sequence and error, and the
  consumer's checkpoint stays; after a success the checkpoint advances to the sequence.
\<close>

definition deliver_one :: "engine \<Rightarrow> registration \<Rightarrow> notification \<Rightarrow> bool \<Rightarrow> outcome \<times> engine" where
  "deliver_one eng r n is_replay =
     (case r_callback r n is_replay of
        Some e \<Rightarrow>
          (Failed e,
           eng\<lparr>failure_log := failure_log eng @ [(r_consumer_id r, channel_n n, sequence n, e)]\<rparr>)
      | None \<Rightarrow>
          (case advance_checkpoint (registry eng) (r_consumer_id r) (channel_n n) (sequence n) of
             (Inl err, reg') \<Rightarrow> (Rejected err, eng\<lparr>registry := reg'\<rparr>)
           | (Inr u, reg') \<Rightarrow> (Delivered, eng\<lparr>registry := reg'\<rparr>)))"

text \<open>
  Modelled from the spec: \<open>deliver(notification, is_replay)\<close>, which invokes every
  subscriber of the notification's channel and returns the outcome per consumer.
\<close>

fun deliver_each ::
  "engine \<Rightarrow> registration list \<Rightarrow> notification \<Rightarrow> bool \<Rightarrow> (string \<times> outcome) list \<times> engine" where
  "deliver_each eng [] n is_replay = ([], eng)"
| "deliver_each eng (r # rs) n is_replay =
     (case deliver_one eng r n is_replay of
        (out, eng1) \<Rightarrow>
          (case deliver_each eng1 rs n is_replay of
             (outs, eng2) \<Rightarrow> ((r_consumer_id r, out) # outs, eng2)))"

definition deliver :: "engine \<Rightarrow> notification \<Rightarrow> bool \<Rightarrow> (string \<times> outcome) list \<times> engine" where
  "deliver eng n is_replay =
     deliver_each eng
       (filter (\<lambda>r. channel_n n \<in> set (r_channels r)) (registrations (registry eng)))
       n is_replay"

text \<open>
  Modelled from the spec: the replay of one batch to one consumer (section 4.4), in
  order, flagged as replay, up to the first failure; and the log entries of its failures.
\<close>

fun deliver_batch :: "registration \<Rightarrow> notification list \<Rightarrow> (notification \<times> exc option) list" where
  "deliver_batch r [] = []"
| "deliver_batch r (n # ns) =
     (case r_callback r n True of
        None \<Rightarrow> (n, None) # deliver_batch r ns
      | Some e \<Rightarrow> [(n, Some e)])"

definition log_failures ::
  "string \<Rightarrow> (notification \<times> exc option) list \<Rightarrow> (string \<times> string \<times> nat \<times> exc) list" where
  "log_failures cid attempts =
     concat (map (\<lambda>(n, r). case r of None \<Rightarrow> [] | Some e \<Rightarrow> [(cid, channel_n n, sequence n, e)])
                 attempts)"

text \<open>
  Modelled from the spec: \<open>catch_up\<close> on one channel. It reads a batch past the checkpoint,
  delivers it, advances the checkpoint after a successful batch and goes on until no
  backlog remains; a failed delivery or an unavailable store ends it.
\<close>

function catch_up_channel ::
  "engine \<Rightarrow> registration \<Rightarrow> string \<Rightarrow> (notification \<times> exc option) list \<times> engine" where
  "catch_up_channel eng r c =
     (case read_range (store eng) c (checkpoint (registry eng) (r_consumer_id r) c)
             (Some (batch_size eng)) of
        Inl err \<Rightarrow> ([], eng)
      | Inr [] \<Rightarrow> ([], eng)
      | Inr (n # ns) \<Rightarrow>
          (let attempts = deliver_batch r (n # ns);
               eng1 = eng\<lparr>failure_log := failure_log eng @ log_failures (r_consumer_id r) attempts\<rparr>
           in
           if \<not> list_all (\<lambda>a. snd a = None) attempts then (attempts, eng1)
           else
             (case advance_checkpoint (registry eng1) (r_consumer_id r) c (sequence (last (n # ns))) of
                (Inl err, reg') \<Rightarrow> (attempts, eng1\<lparr>registry := reg'\<rparr>)
              | (Inr u, reg') \<Rightarrow>
                  (case catch_up_channel (eng1\<lparr>registry := reg'\<rparr>) r c of
                     (later, eng2) \<Rightarrow> (attempts @ later, eng2)))))"
  by pat_completeness auto
termination
proof (relation "measure (\<lambda>(eng, r, c). length (filter
           (\<lambda>n. channel_n n = c \<and> checkpoint (registry eng) (r_consumer_id r) c < sequence n)
           (rows (store eng))))", goal_cases)
  case 1
  show ?case by simp
next
  case (2 eng r c b n ns attempts eng1 res reg' u)
  define cp where "cp = checkpoint (registry eng) (r_consumer_id r) c"
  define m where "m = last (n # ns)"
  define P where "P = (\<lambda>x::notification. channel_n x = c \<and> cp < sequence x)"
  define Q where "Q = (\<lambda>x::notification. channel_n x = c \<and> sequence m < sequence x)"
  have "m \<in> set (n # ns)" unfolding m_def by (rule last_in_set) simp
  moreover have "set (n # ns) \<subseteq> set (filter P (rows (store eng)))"
  proof -
    have "take (batch_size eng) (sort_key sequence (filter P (rows (store eng)))) = n # ns"
      using 2(1,2) by (simp add: read_range_def P_def cp_def split: if_splits)
    then have "set (n # ns) \<subseteq> set (sort_key sequence (filter P (rows (store eng))))"
      using set_take_subset[of "batch_size eng" "sort_key sequence (filter P (rows (store eng)))"]
      by simp
    then show ?thesis by simp
  qed
  ultimately have mP: "m \<in> set (filter P (rows (store eng)))" by blast
  then have Pm: "P m" by simp
  have "\<not> Q m" by (simp add: Q_def)
  with mP have "length (filter Q (filter P (rows (store eng)))) < length (filter P (rows (store eng)))"
    by (rule length_filter_less)
  moreover have "\<And>x. (P x \<and> Q x) = Q x" using Pm by (auto simp: P_def Q_def)
  ultimately have less: "length (filter Q (rows (store eng))) < length (filter P (rows (store eng)))"
    by simp
  have adv: "advance_checkpoint (registry eng1) (r_consumer_id r) c (sequence m) = (Inr u, reg')"
    using 2(6,7) by (simp add: m_def)
  then have "checkpoint reg' (r_consumer_id r) c = sequence m"
    by (auto simp: advance_checkpoint_def checkpoint_def split: if_splits)
  then show ?case
    using less 2(4) by (simp add: P_def Q_def cp_def)
qed

text \<open>Modelled from the spec: \<open>catch_up(consumer_id)\<close>, over each of the consumer's channels.\<close>

fun catch_up_channels ::
  "engine \<Rightarrow> registration \<Rightarrow> string list \<Rightarrow> (notification \<times> exc option) list \<times> engine" where
  "catch_up_channels eng r [] = ([], eng)"
| "catch_up_channels eng r (c # cs) =
     (case catch_up_channel eng r c of
        (ds, eng1) \<Rightarrow>
          (case catch_up_channels eng1 r cs of (ds', eng2) \<Rightarrow> (ds @ ds', eng2)))"

definition catch_up :: "engine \<Rightarrow> string \<Rightarrow> (notification \<times> exc option) list \<times> engine" where
  "catch_up eng cid =
     (case find (\<lambda>r. r_consumer_id r = cid) (registrations (registry eng)) of
        None \<Rightarrow> ([], eng)
      | Some r \<Rightarrow> catch_up_channels eng r (r_channels r))"

declare catch_up_channel.simps [simp del]

text \<open>
  Modelled from the spec: the control flow of section 2 as single steps of the engine. A
  publish writes into the store and, once durable, is handed to the Dispatcher as a live
  notification; a registration is followed by the consumer's catch-up; a live
  notification, a catch-up, a trim and a checkpoint advance may also happen on their own.
  Every step returns the callback invocations it made: consumer, notification and replay
  flag.
\<close>

datatype engine_op =
    Publish string pyval nat
  | Trim string nat
  | Register registration replay_from
  | Advance string string nat
  | Deliver notification bool
  | CatchUp string

fun step :: "engine \<Rightarrow> engine_op \<Rightarrow> (string \<times> notification \<times> bool) list \<times> engine" where
  "step eng (Publish c p now) =
     (case publish (store eng) c p now of
        (Inl err, s') \<Rightarrow> ([], eng\<lparr>store := s'\<rparr>)
      | (Inr n, s') \<Rightarrow>
          (let notif = \<lparr>sequence = n, channel_n = c, payload = p, created_at = now\<rparr> in
           case deliver (eng\<lparr>store := s'\<rparr>) notif False of
             (outs, eng') \<Rightarrow> (map (\<lambda>(cid, out). (cid, notif, False)) outs, eng')))"
| "step eng (Trim c before_sequence) =
     ([], eng\<lparr>store := trim (registry eng) (store eng) c before_sequence\<rparr>)"
| "step eng (Register r rf) =
     (case register (store eng) (registry eng) r rf of
        Inl err \<Rightarrow> ([], eng)
      | Inr reg' \<Rightarrow>
          (case catch_up (eng\<lparr>registry := reg'\<rparr>) (r_consumer_id r) of
             (ds, eng') \<Rightarrow> (map (\<lambda>(n, out). (r_consumer_id r, n, True)) ds, eng')))"
| "step eng (Advance cid c n) =
     ([], eng\<lparr>registry := snd (advance_checkpoint (registry eng) cid c n)\<rparr>)"
| "step eng (Deliver n is_replay) =
     (case deliver eng n is_replay of
        (outs, eng') \<Rightarrow> (map (\<lambda>(cid, out). (cid, n, is_replay)) outs, eng'))"
| "step eng (CatchUp cid) =
     (case catch_up eng cid of
        (ds, eng') \<Rightarrow> (map (\<lambda>(n, out). (cid, n, True)) ds, eng'))"

fun run :: "engine \<Rightarrow> engine_op list \<Rightarrow> (string \<times> notification \<times> bool) list \<times> engine" where
  "run eng [] = ([], eng)"
| "run eng (x # xs) =
     (case step eng x of
        (ds, eng1) \<Rightarrow> (case run eng1 xs of (ds', eng2) \<Rightarrow> (ds @ ds', eng2)))"

text \<open>
  Modelled from the spec: the store never holds a sequence above the highest one assigned
  on its channel (sequences are assigned by the store at write time, section 3).
\<close>

definition outbox_ok :: "outbox \<Rightarrow> bool" where
  "outbox_ok s = list_all (\<lambda>n. sequence n \<le> last_sequence s (channel_n n)) (rows s)"


text \<open>
  Modelled from the spec: an engine at start-up, with an empty store and no consumer, and
  the runs in which one consumer of one channel takes part: publishes on the channel and
  catch-ups of the consumer. \<open>published\<close> lists the payloads a run publishes.
\<close>

definition new_engine :: "nat \<Rightarrow> engine" where
  "new_engine b =
     \<lparr>store = empty_outbox, registry = empty_registry, failure_log = [], batch_size = b\<rparr>"

fun publish_or_catch_up :: "string \<Rightarrow> string \<Rightarrow> engine_op \<Rightarrow> bool" where
  "publish_or_catch_up c cid (Publish c' p t) = (c' = c)"
| "publish_or_catch_up c cid (CatchUp a) = (a = cid)"
| "publish_or_catch_up c cid x = False"

fun published :: "engine_op list \<Rightarrow> pyval list" where
  "published [] = []"
| "published (Publish c p t # xs) = p # published xs"
| "published (x # xs) = published xs"

text \<open>
  The log of a channel is in order when the store is available, holds notifications of
  that channel only, and their sequences are 1, 2, ... up to the channel's counter. A
  consumer is in step when it is the only one registered and its checkpoint is at the
  counter.
\<close>

definition channel_log :: "engine \<Rightarrow> string \<Rightarrow> bool" where
  "channel_log eng c \<longleftrightarrow>
     available (store eng)
     \<and> (\<forall>n\<in>set (rows (store eng)). channel_n n = c)
     \<and> map sequence (rows (store eng)) = [1..<Suc (last_sequence (store eng) c)]"

definition in_step :: "engine \<Rightarrow> registration \<Rightarrow> string \<Rightarrow> bool" where
  "in_step eng r c \<longleftrightarrow>
     channel_log eng c \<and> 0 < batch_size eng
     \<and> registrations (registry eng) = [r]
     \<and> checkpoint (registry eng) (r_consumer_id r) c = last_sequence (store eng) c"

section \<open>Sample inputs\<close>

definition world0 :: world where
  "world0 = \<lparr>console = [], shell_log = [], files = [], created = 0\<rparr>"

text \<open>
  The handler of an insert into \<open>auth_user\<close> with record id 7, and the same row reported as
  an update that carries no old row.
\<close>

definition alice_insert :: handler where
  "alice_insert =
     \<lparr>channel = Inr (PStr ''data_change''),
      data = Inr (PDict [(''table'', PStr ''auth_user''), (''action'', PStr ''INSERT''),
                         (''record_id'', PInt 7),
                         (''new_data'', PDict [(''username'', PStr ''alice''),
                                               (''email'', PStr ''a@x.com'')])]),
      timestamp = Inr (PInt 0),
      get_table = Inr (PStr ''auth_user''),
      get_action = Inr (PStr ''INSERT''),
      get_record_id = Inr (PInt 7),
      get_old_data = Inr PNone,
      get_new_data = Inr (PDict [(''username'', PStr ''alice''), (''email'', PStr ''a@x.com'')])\<rparr>"

definition alice_update :: handler where
  "alice_update = alice_insert\<lparr>get_action := Inr (PStr ''UPDATE'')\<rparr>"



text \<open>
  Three notifications on \<open>data_change\<close>, and two consumers of that channel that have both
  seen the first two; the second one fails on the third.
\<close>

definition sample_note :: "nat \<Rightarrow> notification" where
  "sample_note k =
     \<lparr>sequence = k, channel_n = ''data_change'',
      payload = PDict [(''table'', PStr ''auth_user''), (''action'', PStr ''INSERT''),
                       (''record_id'', PInt (int k))],
      created_at = k\<rparr>"

definition sample_outbox :: outbox where
  "sample_outbox =
     \<lparr>rows = [sample_note 1, sample_note 2, sample_note 3],
      last_sequence = (\<lambda>c. if c = ''data_change'' then 3 else 0),
      available = True\<rparr>"

definition always_ok :: "notification \<Rightarrow> bool \<Rightarrow> exc option" where
  "always_ok n is_replay = None"

definition fails_on :: "nat \<Rightarrow> notification \<Rightarrow> bool \<Rightarrow> exc option" where
  "fails_on k n is_replay = (if sequence n = k then Some (OtherError ''boom'') else None)"

definition sample_registry :: registry where
  "sample_registry =
     \<lparr>registrations =
        [\<lparr>r_consumer_id = ''fast'', r_channels = [''data_change''], r_callback = always_ok\<rparr>,
         \<lparr>r_consumer_id = ''slow'', r_channels = [''data_change''], r_callback = fails_on 3\<rparr>],
      checkpoints = (\<lambda>k. if k = (''fast'', ''data_change'') then Some 2
                         else if k = (''slow'', ''data_change'') then Some 2 else None),
      rejected = []\<rparr>"







section \<open>Properties of the example consumers\<close>

lemmas prog_defs = ret_def raise_exc_def io_bind_def call_def print_line_def try_except_def

text \<open>
  C6. For every handler, \<open>AnalyticsConsumer.handle_notification\<close> returns normally:
  whatever exception the read of \<open>handler.channel\<close>, \<open>track_database_change\<close> or
  \<open>track_user_event\<close> raises (the handler's accessors included) is caught and not raised
  again.
\<close>

theorem analytics_never_raises:
  "\<exists>w'. AnalyticsConsumer_handle_notification h w = (Inr (), w')"
  by (cases "channel h"; cases "get_table h"; cases "get_action h"; cases "get_record_id h";
      cases "timestamp h"; cases "data h")
     (simp_all add: AnalyticsConsumer_handle_notification_def track_database_change_def
        track_user_event_def prog_defs)

text \<open>
  C7. For every string \<open>table_name\<close>, \<open>create_table_monitor\<close> returns a consumer whose
  \<open>consumer_id\<close> is \<open>table_name + '_monitor'\<close> and whose channels are \<open>['data_change']\<close>.
  Its callback prints the monitor line when \<open>get_table()\<close> equals \<open>table_name\<close> (and the two
  further accessors return), does nothing when \<open>get_table()\<close> returns another value, and
  changes nothing unless \<open>get_table()\<close> equals \<open>table_name\<close>.
\<close>

theorem table_monitor:
  "consumer_id (create_table_monitor table_name) = table_name @ ''_monitor''
   \<and> channels (create_table_monitor table_name) = [''data_change'']
   \<and> (\<forall>h w action record_id.
         get_table h = Inr (PStr table_name) \<and> get_action h = Inr action
         \<and> get_record_id h = Inr record_id \<longrightarrow>
         handle_notification (create_table_monitor table_name) h w =
           (Inr (), w\<lparr>console := console w @ [MonitorLine table_name action record_id]\<rparr>))
   \<and> (\<forall>h w table.
         get_table h = Inr table \<and> table \<noteq> PStr table_name \<longrightarrow>
         handle_notification (create_table_monitor table_name) h w = (Inr (), w))
   \<and> (\<forall>h w r w'.
         handle_notification (create_table_monitor table_name) h w = (r, w') \<and> w' \<noteq> w \<longrightarrow>
         get_table h = Inr (PStr table_name))"
proof (intro conjI allI impI)
  show "consumer_id (create_table_monitor table_name) = table_name @ ''_monitor''"
    by (simp add: create_table_monitor_def)
  show "channels (create_table_monitor table_name) = [''data_change'']"
    by (simp add: create_table_monitor_def)
next
  fix h :: handler and w action record_id
  assume "get_table h = Inr (PStr table_name) \<and> get_action h = Inr action
          \<and> get_record_id h = Inr record_id"
  then show "handle_notification (create_table_monitor table_name) h w =
           (Inr (), w\<lparr>console := console w @ [MonitorLine table_name action record_id]\<rparr>)"
    by (simp add: create_table_monitor_def prog_defs eq_str_def)
next
  fix h :: handler and w table
  assume "get_table h = Inr table \<and> table \<noteq> PStr table_name"
  then show "handle_notification (create_table_monitor table_name) h w = (Inr (), w)"
    by (simp add: create_table_monitor_def prog_defs eq_str_def)
next
  fix h :: handler and w r w'
  assume a: "handle_notification (create_table_monitor table_name) h w = (r, w') \<and> w' \<noteq> w"
  show "get_table h = Inr (PStr table_name)"
  proof (cases "get_table h")
    case (Inl e)
    with a show ?thesis by (auto simp add: create_table_monitor_def prog_defs)
  next
    case (Inr table)
    with a show ?thesis
      by (cases "table = PStr table_name")
         (auto simp add: create_table_monitor_def prog_defs eq_str_def)
  qed
qed

theorem table_monitor_witness:
  "handle_notification (create_table_monitor ''auth_user'') alice_insert world0 =
     (Inr (), world0\<lparr>console := [MonitorLine ''auth_user'' (PStr ''INSERT'') (PInt 7)]\<rparr>)
   \<and> handle_notification (create_table_monitor ''orders'') alice_insert world0 = (Inr (), world0)
   \<and> consumer_id (create_table_monitor ''orders'') = ''orders_monitor''"
  using table_monitor [of "''auth_user''", THEN conjunct2, THEN conjunct2, THEN conjunct1,
      rule_format, of alice_insert "PStr ''INSERT''" "PInt 7" world0]
    table_monitor [of "''orders''", THEN conjunct2, THEN conjunct2, THEN conjunct2, THEN conjunct1,
      rule_format, of alice_insert "PStr ''auth_user''" world0]
    table_monitor [of "''orders''", THEN conjunct1]
  by (simp add: alice_insert_def world0_def)

text \<open>
  C8. \<open>UserChangeConsumer.handle_notification\<close> raises on some handlers: when
  \<open>get_table()\<close> is \<open>'auth_user'\<close>, \<open>get_action()\<close> is \<open>'UPDATE'\<close> and \<open>get_old_data()\<close> or
  \<open>get_new_data()\<close> is \<open>None\<close>, the call of \<open>.get\<close> on \<open>None\<close> raises \<open>AttributeError\<close>. When
  \<open>get_table()\<close> is anything but \<open>'auth_user'\<close> the method returns at once and changes
  nothing.
\<close>

theorem user_change_raises:
  "(\<forall>h w. get_table h = Inr (PStr ''auth_user'') \<and> get_action h = Inr (PStr ''UPDATE'')
          \<and> (get_old_data h = Inr PNone \<and> (\<exists>v. get_new_data h = Inr v)
             \<or> get_new_data h = Inr PNone \<and> (\<exists>v. get_old_data h = Inr v)) \<longrightarrow>
          UserChangeConsumer_handle_notification h w = (Inl AttributeError, w))
   \<and> (\<forall>h w table. get_table h = Inr table \<and> table \<noteq> PStr ''auth_user'' \<longrightarrow>
          UserChangeConsumer_handle_notification h w = (Inr (), w))"
  apply (intro conjI allI impI)
   apply (elim conjE disjE exE)
  subgoal for h w v
    by (cases v) (simp_all add: UserChangeConsumer_handle_notification_def prog_defs eq_str_def)
  subgoal for h w v
    by (cases v) (simp_all add: UserChangeConsumer_handle_notification_def prog_defs eq_str_def)
  subgoal for h w table
    by (simp add: UserChangeConsumer_handle_notification_def prog_defs eq_str_def)
  done

theorem user_change_raises_witness:
  "UserChangeConsumer_handle_notification alice_update world0 = (Inl AttributeError, world0)
   \<and> UserChangeConsumer_handle_notification (alice_update\<lparr>get_table := Inr (PStr ''orders'')\<rparr>) world0
       = (Inr (), world0)"
  using user_change_raises [THEN conjunct1, rule_format, of alice_update world0]
    user_change_raises [THEN conjunct2, rule_format,
      of "alice_update\<lparr>get_table := Inr (PStr ''orders'')\<rparr>" "PStr ''orders''" world0]
  by (simp add: alice_update_def alice_insert_def)

section \<open>Properties of the test-matrix harness\<close>



subsection \<open>The loop of main\<close>














section \<open>Properties of the engine model\<close>

subsection \<open>The store\<close>

lemma outbox_ok_empty: "outbox_ok empty_outbox"
  by (simp add: outbox_ok_def empty_outbox_def)

lemma outbox_ok_append: "outbox_ok s \<Longrightarrow> outbox_ok (snd (outbox_append s c p now))"
  by (auto simp: outbox_ok_def outbox_append_def Let_def list_all_iff)

lemma outbox_ok_trim: "outbox_ok s \<Longrightarrow> outbox_ok (trim reg s c b)"
  by (auto simp: outbox_ok_def trim_def list_all_iff)

text \<open>
  C5. In every state of the store (in which no row lies above its channel's counter), a
  \<open>publish(c, p)\<close> that returns, followed at once by \<open>read_range(c, 0, no limit)\<close>, yields a
  list with an entry whose payload is \<open>p\<close> and whose sequence is the one returned, above
  the sequence of every row of \<open>c\<close> and above every sequence assigned on \<open>c\<close> before.
\<close>

theorem publish_read_back:
  assumes ok: "outbox_ok s" and pub: "publish s c p now = (Inr n, s')"
  shows "\<exists>found e. read_range s' c 0 None = Inr found \<and> e \<in> set found
           \<and> payload e = p \<and> sequence e = n
           \<and> (\<forall>m\<in>set (rows s). channel_n m = c \<longrightarrow> sequence m < sequence e)
           \<and> last_sequence s c < sequence e"
proof -
  define e where "e = \<lparr>sequence = n, channel_n = c, payload = p, created_at = now\<rparr>"
  have av: "available s" and n: "n = Suc (last_sequence s c)"
    and s': "s' = s\<lparr>rows := rows s @ [e], last_sequence := (last_sequence s)(c := n)\<rparr>"
    using pub by (auto simp: publish_def outbox_append_def Let_def e_def split: if_splits)
  have "read_range s' c 0 None =
          Inr (sort_key sequence (filter (\<lambda>m. channel_n m = c \<and> 0 < sequence m) (rows s')))"
    using av by (simp add: read_range_def s')
  moreover have "e \<in> set (sort_key sequence (filter (\<lambda>m. channel_n m = c \<and> 0 < sequence m) (rows s')))"
    by (simp add: s' e_def n)
  moreover have "\<forall>m\<in>set (rows s). channel_n m = c \<longrightarrow> sequence m < sequence e"
    using ok by (auto simp: outbox_ok_def list_all_iff e_def n)
  ultimately show ?thesis
    by (intro exI[of _ "sort_key sequence (filter (\<lambda>m. channel_n m = c \<and> 0 < sequence m) (rows s'))"]
          exI[of _ e]) (simp add: e_def n)
qed

theorem publish_read_back_witness:
  "outbox_ok sample_outbox
   \<and> fst (publish sample_outbox ''data_change'' (PStr ''hello'') 9) = Inr 4
   \<and> (\<exists>found e. read_range (snd (publish sample_outbox ''data_change'' (PStr ''hello'') 9))
                    ''data_change'' 0 None = Inr found
         \<and> e \<in> set found \<and> payload e = PStr ''hello'' \<and> sequence e = 4
         \<and> (\<forall>m\<in>set (rows sample_outbox). channel_n m = ''data_change'' \<longrightarrow> sequence m < sequence e)
         \<and> last_sequence sample_outbox ''data_change'' < sequence e)"
proof -
  have a: "outbox_ok sample_outbox"
    by (simp add: outbox_ok_def sample_outbox_def sample_note_def)
  have b: "publish sample_outbox ''data_change'' (PStr ''hello'') 9 =
             (Inr 4, snd (publish sample_outbox ''data_change'' (PStr ''hello'') 9))"
    by (simp add: publish_def outbox_append_def sample_outbox_def Let_def)
  have f: "fst (publish sample_outbox ''data_change'' (PStr ''hello'') 9) = Inr 4"
    by (simp add: publish_def outbox_append_def sample_outbox_def Let_def)
  show ?thesis using a f publish_read_back [OF a b] by blast
qed

lemma fold_min_le: "fold (\<lambda>i m. min (f i) m) xs a \<le> (a::nat)"
proof (induction xs arbitrary: a)
  case Nil
  show ?case by simp
next
  case (Cons y ys)
  have "fold (\<lambda>i m. min (f i) m) ys (min (f y) a) \<le> min (f y) a" by (rule Cons.IH)
  also have "\<dots> \<le> a" by simp
  finally show ?case by simp
qed

lemma fold_min_le_elem: "x \<in> set xs \<Longrightarrow> fold (\<lambda>i m. min (f i) m) xs a \<le> (f x::nat)"
proof (induction xs arbitrary: a)
  case Nil
  then show ?case by simp
next
  case (Cons y ys)
  show ?case
  proof (cases "x = y")
    case True
    have "fold (\<lambda>i m. min (f i) m) ys (min (f y) a) \<le> min (f y) a" by (rule fold_min_le)
    also have "\<dots> \<le> f y" by simp
    finally show ?thesis using True by simp
  next
    case False
    then show ?thesis using Cons by simp
  qed
qed

lemma fold_min_attained: "fold (\<lambda>i m. min (f i) m) xs a = (a::nat) \<or> fold (\<lambda>i m. min (f i) m) xs a \<in> f ` set xs"
proof (induction xs arbitrary: a)
  case Nil
  then show ?case by simp
next
  case (Cons y ys)
  from Cons[of "min (f y) a"] show ?case by (auto simp: min_def split: if_splits)
qed

lemma min_checkpoint_is_min:
  assumes "min_checkpoint reg c = Some m"
  shows "(\<forall>cid\<in>set (subscribers_for reg c). m \<le> checkpoint reg cid c)
         \<and> (\<exists>cid\<in>set (subscribers_for reg c). m = checkpoint reg cid c)"
proof (cases "subscribers_for reg c")
  case Nil
  with assms show ?thesis by (simp add: min_checkpoint_def)
next
  case (Cons cid cids)
  then have m: "m = fold (\<lambda>i m. min (checkpoint reg i c) m) cids (checkpoint reg cid c)"
    using assms by (simp add: min_checkpoint_def)
  have "m \<le> checkpoint reg cid c" unfolding m by (rule fold_min_le)
  moreover have "\<forall>x\<in>set cids. m \<le> checkpoint reg x c"
    unfolding m by (auto intro: fold_min_le_elem)
  moreover have "m = checkpoint reg cid c \<or> m \<in> (\<lambda>i. checkpoint reg i c) ` set cids"
    unfolding m by (rule fold_min_attained)
  ultimately show ?thesis using Cons by auto
qed

text \<open>
  C3. For every channel \<open>c\<close> with consumers and every boundary, \<open>trim\<close> keeps every
  notification of \<open>c\<close> whose sequence exceeds the minimum checkpoint of the consumers of
  \<open>c\<close>: what it removes lies on \<open>c\<close>, at or below that minimum and before the boundary.
  The minimum is a lower bound of the consumers' checkpoints and one of them.
\<close>

theorem trim_safety:
  assumes "min_checkpoint reg c = Some m"
  shows "(\<forall>n\<in>set (rows s). channel_n n = c \<and> m < sequence n \<longrightarrow>
            n \<in> set (rows (trim reg s c before_sequence)))
         \<and> (\<forall>n\<in>set (rows s). n \<notin> set (rows (trim reg s c before_sequence)) \<longrightarrow>
            channel_n n = c \<and> sequence n \<le> m \<and> sequence n < before_sequence)
         \<and> (\<forall>cid\<in>set (subscribers_for reg c). m \<le> checkpoint reg cid c)
         \<and> (\<exists>cid\<in>set (subscribers_for reg c). m = checkpoint reg cid c)"
  using assms min_checkpoint_is_min[OF assms] by (auto simp: trim_def)

theorem trim_safety_witness:
  "min_checkpoint sample_registry ''data_change'' = Some 2
   \<and> sample_note 3 \<in> set (rows (trim sample_registry sample_outbox ''data_change'' 10))
   \<and> rows (trim sample_registry sample_outbox ''data_change'' 10) = [sample_note 3]"
proof -
  have m: "min_checkpoint sample_registry ''data_change'' = Some 2"
    by (simp add: min_checkpoint_def subscribers_for_def sample_registry_def checkpoint_def)
  have "sample_note 3 \<in> set (rows (trim sample_registry sample_outbox ''data_change'' 10))"
    using trim_safety [OF m, of sample_outbox 10]
    by (simp add: sample_outbox_def sample_note_def)
  moreover have "rows (trim sample_registry sample_outbox ''data_change'' 10) = [sample_note 3]"
    by (simp add: trim_def m sample_outbox_def sample_note_def)
  ultimately show ?thesis using m by simp
qed

subsection \<open>Checkpoints never move back\<close>

lemma advance_mono:
  "checkpoint reg a b \<le> checkpoint (snd (advance_checkpoint reg cid c n)) a b"
  by (auto simp: advance_checkpoint_def checkpoint_def)

lemma deliver_one_mono:
  "checkpoint (registry eng) a b \<le> checkpoint (registry (snd (deliver_one eng r n f))) a b"
proof (cases "r_callback r n f")
  case None
  then show ?thesis
    using advance_mono[of "registry eng" a b "r_consumer_id r" "channel_n n" "sequence n"]
    by (auto simp: deliver_one_def split: prod.splits sum.splits)
next
  case (Some e)
  then show ?thesis by (simp add: deliver_one_def)
qed

lemma deliver_each_mono:
  "checkpoint (registry eng) a b \<le> checkpoint (registry (snd (deliver_each eng rs n f))) a b"
proof (induction rs arbitrary: eng)
  case Nil
  show ?case by simp
next
  case (Cons r rs)
  obtain out eng1 where d: "deliver_one eng r n f = (out, eng1)" by (cases "deliver_one eng r n f")
  obtain outs eng2 where e: "deliver_each eng1 rs n f = (outs, eng2)"
    by (cases "deliver_each eng1 rs n f")
  have "checkpoint (registry eng) a b \<le> checkpoint (registry eng1) a b"
    using deliver_one_mono[of eng a b r n f] d by simp
  also have "\<dots> \<le> checkpoint (registry eng2) a b" using Cons.IH[of eng1] e by simp
  finally show ?case using d e by simp
qed

lemma deliver_mono:
  "checkpoint (registry eng) a b \<le> checkpoint (registry (snd (deliver eng n f))) a b"
  unfolding deliver_def by (rule deliver_each_mono)

lemma catch_up_channel_stop:
  assumes "read_range (store eng) c (checkpoint (registry eng) (r_consumer_id r) c)
             (Some (batch_size eng)) = Inl err
           \<or> read_range (store eng) c (checkpoint (registry eng) (r_consumer_id r) c)
             (Some (batch_size eng)) = Inr []"
  shows "catch_up_channel eng r c = ([], eng)"
  using assms by (subst catch_up_channel.simps) auto

lemma catch_up_channel_batch:
  assumes rd: "read_range (store eng) c (checkpoint (registry eng) (r_consumer_id r) c)
             (Some (batch_size eng)) = Inr batch"
    and ne: "batch \<noteq> []"
  shows "catch_up_channel eng r c =
     (let attempts = deliver_batch r batch;
          eng1 = eng\<lparr>failure_log := failure_log eng @ log_failures (r_consumer_id r) attempts\<rparr>
      in
      if \<not> list_all (\<lambda>a. snd a = None) attempts then (attempts, eng1)
      else
        (case advance_checkpoint (registry eng1) (r_consumer_id r) c (sequence (last batch)) of
           (Inl err, reg') \<Rightarrow> (attempts, eng1\<lparr>registry := reg'\<rparr>)
         | (Inr u, reg') \<Rightarrow>
             (case catch_up_channel (eng1\<lparr>registry := reg'\<rparr>) r c of
                (later, eng2) \<Rightarrow> (attempts @ later, eng2))))"
proof -
  obtain n ns where b: "batch = n # ns" using ne by (cases batch) auto
  show ?thesis
    by (subst catch_up_channel.simps) (simp only: rd b sum.case list.case)
qed

lemma catch_up_channel_induct2 [consumes 0, case_names step]:
  fixes P :: "engine \<Rightarrow> bool"
  assumes st: "\<And>eng. (\<And>batch u reg'.
      read_range (store eng) c (checkpoint (registry eng) (r_consumer_id r) c)
             (Some (batch_size eng)) = Inr batch \<Longrightarrow>
      batch \<noteq> [] \<Longrightarrow>
      list_all (\<lambda>a. snd a = None) (deliver_batch r batch) \<Longrightarrow>
      advance_checkpoint (registry eng) (r_consumer_id r) c (sequence (last batch)) = (Inr u, reg') \<Longrightarrow>
      P (eng\<lparr>failure_log := failure_log eng @ log_failures (r_consumer_id r) (deliver_batch r batch),
              registry := reg'\<rparr>)) \<Longrightarrow> P eng"
  shows "P eng"
  using st
proof (induction eng r c rule: catch_up_channel.induct)
  case (1 eng r c)
  show ?case
  proof (rule "1.prems")
    fix batch u reg'
    assume a: "read_range (store eng) c (checkpoint (registry eng) (r_consumer_id r) c)
             (Some (batch_size eng)) = Inr batch" "batch \<noteq> []"
      "list_all (\<lambda>a. snd a = None) (deliver_batch r batch)"
      "advance_checkpoint (registry eng) (r_consumer_id r) c (sequence (last batch)) = (Inr u, reg')"
    obtain n ns where b: "batch = n # ns" using a(2) by (cases batch) auto
    show "P (eng\<lparr>failure_log := failure_log eng @ log_failures (r_consumer_id r) (deliver_batch r batch),
              registry := reg'\<rparr>)"
      using "1.IH"[of batch n ns "deliver_batch r (n # ns)"
          "eng\<lparr>failure_log := failure_log eng @ log_failures (r_consumer_id r) (deliver_batch r (n # ns))\<rparr>"
          "Inr u" reg' u] a b "1.prems"
      by simp
  qed
qed

lemma catch_up_channel_mono:
  "checkpoint (registry eng) a b \<le> checkpoint (registry (snd (catch_up_channel eng r c))) a b"
proof (induction eng rule: catch_up_channel_induct2[where r = r and c = c])
  case (step eng)
  let ?rd = "read_range (store eng) c (checkpoint (registry eng) (r_consumer_id r) c)
               (Some (batch_size eng))"
  show ?case
  proof (cases ?rd)
    case (Inl err)
    then show ?thesis by (simp add: catch_up_channel_stop)
  next
    case (Inr batch)
    show ?thesis
    proof (cases "batch = []")
      case True
      with Inr show ?thesis by (simp add: catch_up_channel_stop)
    next
      case False
      define attempts where "attempts = deliver_batch r batch"
      define eng1 where
        "eng1 = eng\<lparr>failure_log := failure_log eng @ log_failures (r_consumer_id r) attempts\<rparr>"
      note unf = catch_up_channel_batch[OF Inr False, folded attempts_def, unfolded Let_def,
          folded eng1_def]
      show ?thesis
      proof (cases "list_all (\<lambda>a. snd a = None) attempts")
        case False
        then show ?thesis unfolding unf by (simp add: eng1_def)
      next
        case True
        obtain res reg' where adv:
          "advance_checkpoint (registry eng) (r_consumer_id r) c (sequence (last batch)) = (res, reg')"
          by (cases "advance_checkpoint (registry eng) (r_consumer_id r) c (sequence (last batch))")
        have m1: "checkpoint (registry eng) a b \<le> checkpoint reg' a b"
          using advance_mono[of "registry eng" a b "r_consumer_id r" c "sequence (last batch)"] adv
          by simp
        show ?thesis
        proof (cases res)
          case (Inl err)
          then show ?thesis unfolding unf using True adv m1 by (simp add: eng1_def)
        next
          case (Inr u)
          have ih: "checkpoint (registry (eng1\<lparr>registry := reg'\<rparr>)) a b
                 \<le> checkpoint (registry (snd (catch_up_channel (eng1\<lparr>registry := reg'\<rparr>) r c))) a b"
            using step[OF \<open>?rd = Inr batch\<close> False True[unfolded attempts_def] adv[unfolded Inr]]
            by (simp add: eng1_def attempts_def)
          obtain later eng2 where l: "catch_up_channel (eng1\<lparr>registry := reg'\<rparr>) r c = (later, eng2)"
            by (cases "catch_up_channel (eng1\<lparr>registry := reg'\<rparr>) r c")
          have "checkpoint (registry eng) a b \<le> checkpoint (registry eng2) a b"
            using ih m1 l by simp
          moreover have "registry eng1 = registry eng" by (simp add: eng1_def)
          ultimately show ?thesis unfolding unf using True adv Inr l by simp
        qed
      qed
    qed
  qed
qed

lemma catch_up_channels_mono:
  "checkpoint (registry eng) a b \<le> checkpoint (registry (snd (catch_up_channels eng r cs))) a b"
proof (induction cs arbitrary: eng)
  case Nil
  show ?case by simp
next
  case (Cons c cs)
  obtain ds eng1 where d: "catch_up_channel eng r c = (ds, eng1)"
    by (cases "catch_up_channel eng r c")
  obtain ds' eng2 where e: "catch_up_channels eng1 r cs = (ds', eng2)"
    by (cases "catch_up_channels eng1 r cs")
  have "checkpoint (registry eng) a b \<le> checkpoint (registry eng1) a b"
    using catch_up_channel_mono[of eng a b r c] d by simp
  also have "\<dots> \<le> checkpoint (registry eng2) a b" using Cons.IH[of eng1] e by simp
  finally show ?case using d e by simp
qed

lemma catch_up_mono:
  "checkpoint (registry eng) a b \<le> checkpoint (registry (snd (catch_up eng cid))) a b"
  by (simp add: catch_up_def catch_up_channels_mono split: option.splits)

lemma register_mono:
  "register s reg r rf = Inr reg' \<Longrightarrow> checkpoint reg a b \<le> checkpoint reg' a b"
  by (auto simp: register_def checkpoint_def split: if_splits option.splits)

lemma step_mono:
  "checkpoint (registry eng) a b \<le> checkpoint (registry (snd (step eng x))) a b"
proof (cases x)
  case (Publish c p now)
  obtain res s' where p: "publish (store eng) c p now = (res, s')"
    by (cases "publish (store eng) c p now")
  show ?thesis
  proof (cases res)
    case (Inl err)
    with p Publish show ?thesis by simp
  next
    case (Inr n)
    define nt where "nt = \<lparr>sequence = n, channel_n = c, payload = p, created_at = now\<rparr>"
    obtain outs eng' where d: "deliver (eng\<lparr>store := s'\<rparr>) nt False = (outs, eng')"
      by (cases "deliver (eng\<lparr>store := s'\<rparr>) nt False")
    have "checkpoint (registry eng) a b \<le> checkpoint (registry eng') a b"
      using deliver_mono[of "eng\<lparr>store := s'\<rparr>" a b nt False] d by simp
    then show ?thesis
      using p Publish Inr d by (simp add: Let_def nt_def)
  qed
next
  case (Trim c before_sequence)
  then show ?thesis by simp
next
  case (Register r rf)
  show ?thesis
  proof (cases "register (store eng) (registry eng) r rf")
    case (Inl err)
    with Register show ?thesis by simp
  next
    case (Inr reg')
    have "checkpoint (registry eng) a b \<le> checkpoint reg' a b"
      using register_mono[OF Inr] .
    also have "\<dots> \<le> checkpoint (registry (snd (catch_up (eng\<lparr>registry := reg'\<rparr>) (r_consumer_id r)))) a b"
      using catch_up_mono[of "eng\<lparr>registry := reg'\<rparr>" a b "r_consumer_id r"] by simp
    finally show ?thesis using Register Inr
      by (cases "catch_up (eng\<lparr>registry := reg'\<rparr>) (r_consumer_id r)") simp
  qed
next
  case (Advance cid c n)
  then show ?thesis by (simp add: advance_mono)
next
  case (Deliver n is_replay)
  then show ?thesis using deliver_mono[of eng a b n is_replay]
    by (cases "deliver eng n is_replay") simp
next
  case (CatchUp cid)
  then show ?thesis using catch_up_mono[of eng a b cid]
    by (cases "catch_up eng cid") simp
qed

lemma run_mono:
  "checkpoint (registry eng) a b \<le> checkpoint (registry (snd (run eng xs))) a b"
proof (induction xs arbitrary: eng)
  case Nil
  show ?case by simp
next
  case (Cons x xs)
  obtain ds eng1 where d: "step eng x = (ds, eng1)" by (cases "step eng x")
  obtain ds' eng2 where e: "run eng1 xs = (ds', eng2)" by (cases "run eng1 xs")
  have "checkpoint (registry eng) a b \<le> checkpoint (registry eng1) a b"
    using step_mono[of eng a b x] d by simp
  also have "\<dots> \<le> checkpoint (registry eng2) a b" using Cons.IH[of eng1] e by simp
  finally show ?case using d e by simp
qed

text \<open>
  C4. \<open>advance_checkpoint(consumer_id, channel, sequence)\<close> fails with \<open>CheckpointError\<close>
  exactly when the sequence is below the current checkpoint of the pair, and then leaves
  every checkpoint as it was; otherwise the checkpoint becomes the sequence. Hence over
  any run of the engine no checkpoint ever decreases.
\<close>

theorem advance_checkpoint_monotone:
  "(fst (advance_checkpoint reg cid c n) = Inl CheckpointError \<longleftrightarrow> n < checkpoint reg cid c)
   \<and> (n < checkpoint reg cid c \<longrightarrow>
        checkpoints (snd (advance_checkpoint reg cid c n)) = checkpoints reg)
   \<and> (\<not> n < checkpoint reg cid c \<longrightarrow>
        checkpoint (snd (advance_checkpoint reg cid c n)) cid c = n)
   \<and> (\<forall>xs a b. checkpoint (registry eng) a b \<le> checkpoint (registry (snd (run eng xs))) a b)"
  by (simp add: advance_checkpoint_def checkpoint_def run_mono[unfolded checkpoint_def])

theorem advance_checkpoint_monotone_witness:
  "fst (advance_checkpoint sample_registry ''fast'' ''data_change'' 1) = Inl CheckpointError
   \<and> checkpoints (snd (advance_checkpoint sample_registry ''fast'' ''data_change'' 1))
       = checkpoints sample_registry
   \<and> fst (advance_checkpoint sample_registry ''fast'' ''data_change'' 3) = Inr ()
   \<and> checkpoint (snd (advance_checkpoint sample_registry ''fast'' ''data_change'' 3))
        ''fast'' ''data_change'' = 3"
proof -
  have c: "checkpoint sample_registry ''fast'' ''data_change'' = 2"
    by (simp add: checkpoint_def sample_registry_def)
  note t1 = advance_checkpoint_monotone [of sample_registry "''fast''" "''data_change''" 1]
  note t3 = advance_checkpoint_monotone [of sample_registry "''fast''" "''data_change''" 3]
  have "fst (advance_checkpoint sample_registry ''fast'' ''data_change'' 1) = Inl CheckpointError"
    using t1 c by simp
  moreover have "checkpoints (snd (advance_checkpoint sample_registry ''fast'' ''data_change'' 1))
       = checkpoints sample_registry"
    using t1 c by simp
  moreover have "fst (advance_checkpoint sample_registry ''fast'' ''data_change'' 3) \<noteq> Inl CheckpointError"
    using t3 c by simp
  then have "fst (advance_checkpoint sample_registry ''fast'' ''data_change'' 3) = Inr ()"
    by (simp add: advance_checkpoint_def split: if_splits)
  moreover have "checkpoint (snd (advance_checkpoint sample_registry ''fast'' ''data_change'' 3))
        ''fast'' ''data_change'' = 3"
    using t3 c by simp
  ultimately show ?thesis by simp
qed

subsection \<open>Isolation of a failing consumer\<close>


lemma deliver_one_result:
  "deliver_one eng r n f =
     (case r_callback r n f of
        Some e \<Rightarrow> (Failed e,
           eng\<lparr>failure_log := failure_log eng @ [(r_consumer_id r, channel_n n, sequence n, e)]\<rparr>)
      | None \<Rightarrow>
          if sequence n < checkpoint (registry eng) (r_consumer_id r) (channel_n n)
          then (Rejected CheckpointError,
                eng\<lparr>registry := (registry eng)\<lparr>rejected := rejected (registry eng)
                   @ [(r_consumer_id r, channel_n n, sequence n)]\<rparr>\<rparr>)
          else (Delivered,
                eng\<lparr>registry := (registry eng)\<lparr>checkpoints := (checkpoints (registry eng))
                   ((r_consumer_id r, channel_n n) := Some (sequence n))\<rparr>\<rparr>))"
  by (cases "r_callback r n f") (simp_all add: deliver_one_def advance_checkpoint_def)


lemma catch_up_channel_preserves:
  fixes Q :: "engine \<Rightarrow> 'a"
  assumes lg: "\<And>eng lg. Q (eng\<lparr>failure_log := lg\<rparr>) = Q eng"
    and ad: "\<And>eng n res reg'.
        advance_checkpoint (registry eng) (r_consumer_id r) c n = (res, reg') \<Longrightarrow>
        Q (eng\<lparr>registry := reg'\<rparr>) = Q eng"
  shows "Q (snd (catch_up_channel eng r c)) = Q eng"
proof (induction eng rule: catch_up_channel_induct2[where r = r and c = c])
  case (step eng)
  let ?rd = "read_range (store eng) c (checkpoint (registry eng) (r_consumer_id r) c)
               (Some (batch_size eng))"
  show ?case
  proof (cases ?rd)
    case (Inl err)
    then show ?thesis by (simp add: catch_up_channel_stop)
  next
    case (Inr batch)
    show ?thesis
    proof (cases "batch = []")
      case True
      with Inr show ?thesis by (simp add: catch_up_channel_stop)
    next
      case False
      define attempts where "attempts = deliver_batch r batch"
      define eng1 where
        "eng1 = eng\<lparr>failure_log := failure_log eng @ log_failures (r_consumer_id r) attempts\<rparr>"
      note unf = catch_up_channel_batch[OF Inr False, folded attempts_def, unfolded Let_def,
          folded eng1_def]
      have q1: "Q eng1 = Q eng" unfolding eng1_def by (rule lg)
      have r1: "registry eng1 = registry eng" by (simp add: eng1_def)
      show ?thesis
      proof (cases "list_all (\<lambda>a. snd a = None) attempts")
        case False
        then show ?thesis unfolding unf using q1 by simp
      next
        case True
        obtain res reg' where adv:
          "advance_checkpoint (registry eng) (r_consumer_id r) c (sequence (last batch)) = (res, reg')"
          by (cases "advance_checkpoint (registry eng) (r_consumer_id r) c (sequence (last batch))")
        have q2: "Q (eng1\<lparr>registry := reg'\<rparr>) = Q eng"
          using ad[of eng1 "sequence (last batch)" res reg'] adv r1 q1 by simp
        show ?thesis
        proof (cases res)
          case (Inl err)
          then show ?thesis unfolding unf using True adv q2 r1 by simp
        next
          case (Inr u)
          obtain later eng2 where l: "catch_up_channel (eng1\<lparr>registry := reg'\<rparr>) r c = (later, eng2)"
            by (cases "catch_up_channel (eng1\<lparr>registry := reg'\<rparr>) r c")
          have "Q eng2 = Q (eng1\<lparr>registry := reg'\<rparr>)"
            using step[OF \<open>?rd = Inr batch\<close> False True[unfolded attempts_def] adv[unfolded Inr]] l
            by (simp add: eng1_def attempts_def)
          then show ?thesis unfolding unf using True adv Inr l q2 r1 by simp
        qed
      qed
    qed
  qed
qed

lemma catch_up_channel_frame:
  "store (snd (catch_up_channel eng r c)) = store eng"
  "batch_size (snd (catch_up_channel eng r c)) = batch_size eng"
  "registrations (registry (snd (catch_up_channel eng r c))) = registrations (registry eng)"
  "k \<noteq> (r_consumer_id r, c) \<Longrightarrow>
     checkpoints (registry (snd (catch_up_channel eng r c))) k = checkpoints (registry eng) k"
proof -
  show "store (snd (catch_up_channel eng r c)) = store eng"
    by (rule catch_up_channel_preserves) simp_all
  show "batch_size (snd (catch_up_channel eng r c)) = batch_size eng"
    by (rule catch_up_channel_preserves) simp_all
  show "registrations (registry (snd (catch_up_channel eng r c))) = registrations (registry eng)"
    by (rule catch_up_channel_preserves[where Q = "\<lambda>e. registrations (registry e)"])
       (auto simp: advance_checkpoint_def split: if_splits)
  show "checkpoints (registry (snd (catch_up_channel eng r c))) k = checkpoints (registry eng) k"
    if "k \<noteq> (r_consumer_id r, c)"
    using that
    by (intro catch_up_channel_preserves[where Q = "\<lambda>e. checkpoints (registry e) k"])
       (auto simp: advance_checkpoint_def split: if_splits)
qed










subsection \<open>Sequential runs with a single consumer\<close>

lemma filter_above_drop:
  fixes f :: "'a \<Rightarrow> nat"
  shows "map f xs = [a..<a + length xs] \<Longrightarrow> filter (\<lambda>x. m < f x) xs = drop (Suc m - a) xs"
proof (induction xs arbitrary: a)
  case Nil
  show ?case by simp
next
  case (Cons x xs)
  have "[a..<a + length (x # xs)] = a # [Suc a..<Suc a + length xs]"
    by (subst upt_rec) simp
  with Cons.prems have fx: "f x = a" and tl: "map f xs = [Suc a..<Suc a + length xs]" by simp_all
  note ih = Cons.IH[OF tl]
  show ?case
  proof (cases "m < a")
    case True
    then have "Suc m - a = 0" "Suc m - Suc a = 0" by simp_all
    with ih fx True show ?thesis by simp
  next
    case False
    then have "Suc m - a = Suc (Suc m - Suc a)" by simp
    with ih fx False show ?thesis by simp
  qed
qed

lemma deliver_batch_ok:
  "\<forall>n. r_callback r n True = None \<Longrightarrow> deliver_batch r ns = map (\<lambda>n. (n, None)) ns"
  by (induction ns) simp_all

lemma log_failures_ok: "log_failures cid (map (\<lambda>n. (n, None)) ns) = []"
  by (induction ns) (simp_all add: log_failures_def)

lemma read_range_backlog:
  assumes av: "available s"
    and oc: "\<forall>n\<in>set (rows s). channel_n n = c"
    and sq: "map sequence (rows s) = [1..<Suc L]"
  shows "read_range s c m limit =
           Inr (case limit of None \<Rightarrow> drop m (rows s) | Some k \<Rightarrow> take k (drop m (rows s)))"
proof -
  have len: "length (rows s) = L" using sq[THEN arg_cong, of length] by simp
  have sq': "map sequence (rows s) = [1..<1 + length (rows s)]" using sq len by simp
  have "filter (\<lambda>n. channel_n n = c \<and> m < sequence n) (rows s)
          = filter (\<lambda>n. m < sequence n) (rows s)"
    using oc by (intro filter_cong) auto
  also have "\<dots> = drop m (rows s)" using filter_above_drop[OF sq', of m] by simp
  finally have fl: "filter (\<lambda>n. channel_n n = c \<and> m < sequence n) (rows s) = drop m (rows s)" .
  have "map sequence (drop m (rows s)) = drop m (map sequence (rows s))" by (simp add: drop_map)
  also have "\<dots> = [1 + m..<Suc L]" unfolding sq by (rule drop_upt)
  finally have "sorted (map sequence (drop m (rows s)))" by (simp only: sorted_upt)
  then have "sort_key sequence (drop m (rows s)) = drop m (rows s)"
    by (rule sort_key_id_if_sorted)
  then show ?thesis using av fl by (simp add: read_range_def Let_def)
qed

lemma catch_up_channel_all:
  assumes cb: "\<forall>n. r_callback r n True = None"
  shows "available (store eng) \<Longrightarrow> \<forall>n\<in>set (rows (store eng)). channel_n n = c \<Longrightarrow>
         map sequence (rows (store eng)) = [1..<Suc L] \<Longrightarrow>
         checkpoint (registry eng) (r_consumer_id r) c = m \<Longrightarrow> m \<le> L \<Longrightarrow>
         0 < batch_size eng \<Longrightarrow>
         fst (catch_up_channel eng r c) = map (\<lambda>n. (n, None)) (drop m (rows (store eng)))
         \<and> checkpoint (registry (snd (catch_up_channel eng r c))) (r_consumer_id r) c = L"
proof (induction "L - m" arbitrary: eng m rule: less_induct)
  case less
  define rws where "rws = rows (store eng)"
  define b where "b = batch_size eng"
  define cid where "cid = r_consumer_id r"
  have len: "length rws = L" using less.prems(3)[THEN arg_cong, of length] by (simp add: rws_def)
  have rd: "read_range (store eng) c (checkpoint (registry eng) (r_consumer_id r) c)
              (Some (batch_size eng)) = Inr (take b (drop m rws))"
    using read_range_backlog[OF less.prems(1,2,3), of m "Some b"] less.prems(4)
    by (simp add: rws_def b_def)
  show ?case
  proof (cases "m = L")
    case True
    then have "take b (drop m rws) = []" using len by simp
    with rd have "catch_up_channel eng r c = ([], eng)" by (simp add: catch_up_channel_stop)
    then show ?thesis using True len less.prems(4) by (simp add: rws_def)
  next
    case False
    then have lt: "m < L" using less.prems(5) by simp
    define batch where "batch = take b (drop m rws)"
    define k where "k = min b (L - m)"
    have kpos: "0 < k" using lt less.prems(6) by (simp add: k_def b_def)
    have blen: "length batch = k" by (simp add: batch_def len k_def)
    have ne: "batch \<noteq> []" using blen kpos by auto
    have seqs: "map sequence batch = [Suc m..<Suc m + k]"
    proof -
      have "map sequence batch = take b (drop m (map sequence rws))"
        by (simp add: batch_def take_map drop_map)
      also have "drop m (map sequence rws) = [1 + m..<Suc L]"
        using less.prems(3) unfolding rws_def[symmetric] by (simp only: drop_upt)
      also have "take b [1 + m..<Suc L] = [Suc m..<Suc m + k]"
      proof (cases "b \<le> L - m")
        case True
        then have "1 + m + b \<le> Suc L" using lt by simp
        then have "take b [1 + m..<Suc L] = [1 + m..<1 + m + b]" by (rule take_upt)
        then show ?thesis using True by (simp add: k_def min_def)
      next
        case False
        then have "L - m \<le> b" by simp
        then have "length [1 + m..<Suc L] \<le> b" by (simp del: upt_Suc)
        then have "take b [1 + m..<Suc L] = [1 + m..<Suc L]" by (rule take_all)
        moreover have "Suc m + k = Suc L" using False lt by (simp add: k_def min_def)
        ultimately show ?thesis by simp
      qed
      finally show ?thesis .
    qed
    have lst: "sequence (last batch) = m + k"
    proof -
      have "sequence (last batch) = last (map sequence batch)" using ne by (simp add: last_map)
      also have "\<dots> = Suc m + k - 1" unfolding seqs using kpos by (intro last_upt) simp
      finally show ?thesis by simp
    qed
    have att: "deliver_batch r batch = map (\<lambda>n. (n, None)) batch"
      by (rule deliver_batch_ok[OF cb])
    define reg' where
      "reg' = (registry eng)\<lparr>checkpoints := (checkpoints (registry eng))((cid, c) := Some (m + k))\<rparr>"
    have adv: "advance_checkpoint (registry eng) (r_consumer_id r) c (sequence (last batch))
                 = (Inr (), reg')"
      using less.prems(4) by (simp add: advance_checkpoint_def lst reg'_def cid_def)
    define eng2 where "eng2 = eng\<lparr>registry := reg'\<rparr>"
    have unf: "catch_up_channel eng r c =
                 (map (\<lambda>n. (n, None)) batch @ fst (catch_up_channel eng2 r c),
                  snd (catch_up_channel eng2 r c))"
      unfolding catch_up_channel_batch[OF rd[folded batch_def] ne]
      using adv by (simp add: att log_failures_ok list_all_iff Let_def eng2_def split: prod.splits)
    have cp2: "checkpoint (registry eng2) (r_consumer_id r) c = m + k"
      by (simp add: eng2_def reg'_def checkpoint_def cid_def)
    have st2: "store eng2 = store eng" "batch_size eng2 = batch_size eng"
      by (simp_all add: eng2_def)
    have le2: "m + k \<le> L" using lt by (simp add: k_def)
    have dec: "L - (m + k) < L - m" using kpos lt by simp
    have ih: "fst (catch_up_channel eng2 r c) = map (\<lambda>n. (n, None)) (drop (m + k) rws)
         \<and> checkpoint (registry (snd (catch_up_channel eng2 r c))) (r_consumer_id r) c = L"
      using less.hyps[OF dec, of eng2] less.prems(1,2,3,6) cp2 le2
      by (simp add: st2 rws_def)
    have "drop (m + k) rws = drop b (drop m rws)"
    proof (cases "b \<le> L - m")
      case True
      then show ?thesis by (simp add: k_def min_def add.commute)
    next
      case False
      then show ?thesis using len by (simp add: k_def min_def)
    qed
    then have "batch @ drop (m + k) rws = take b (drop m rws) @ drop b (drop m rws)"
      by (simp only: batch_def)
    then have "batch @ drop (m + k) rws = drop m rws" by (simp only: append_take_drop_id)
    then have "map (\<lambda>n. (n, None)) batch @ map (\<lambda>n. (n, None)) (drop (m + k) rws)
                 = map (\<lambda>n. (n, None)) (drop m rws)"
      by (simp add: map_append[symmetric] del: map_append)
    then show ?thesis unfolding unf using ih by (simp add: rws_def)
  qed
qed

lemma channel_log_length: "channel_log eng c \<Longrightarrow> length (rows (store eng)) = last_sequence (store eng) c"
proof -
  assume "channel_log eng c"
  then have "map sequence (rows (store eng)) = [1..<Suc (last_sequence (store eng) c)]"
    by (simp add: channel_log_def)
  from this[THEN arg_cong, of length] show ?thesis by simp
qed

lemma channel_log_append:
  assumes "channel_log eng c"
  shows "publish (store eng) c p t =
           (Inr (Suc (last_sequence (store eng) c)),
            (store eng)\<lparr>rows := rows (store eng) @
                 [\<lparr>sequence = Suc (last_sequence (store eng) c), channel_n = c, payload = p,
                   created_at = t\<rparr>],
               last_sequence := (last_sequence (store eng))(c := Suc (last_sequence (store eng) c))\<rparr>)"
    and "channel_log (eng\<lparr>store := snd (publish (store eng) c p t)\<rparr>) c"
proof -
  have av: "available (store eng)" using assms by (simp add: channel_log_def)
  show p: "publish (store eng) c p t =
           (Inr (Suc (last_sequence (store eng) c)),
            (store eng)\<lparr>rows := rows (store eng) @
                 [\<lparr>sequence = Suc (last_sequence (store eng) c), channel_n = c, payload = p,
                   created_at = t\<rparr>],
               last_sequence := (last_sequence (store eng))(c := Suc (last_sequence (store eng) c))\<rparr>)"
    using av by (simp add: publish_def outbox_append_def Let_def)
  have "[1..<Suc (Suc (last_sequence (store eng) c))]
          = [1..<Suc (last_sequence (store eng) c)] @ [Suc (last_sequence (store eng) c)]"
    by simp
  then show "channel_log (eng\<lparr>store := snd (publish (store eng) c p t)\<rparr>) c"
    using assms unfolding p by (simp add: channel_log_def del: upt_Suc)
qed

lemma step_publish_unsubscribed:
  assumes "channel_log eng c" and "registrations (registry eng) = []"
  shows "step eng (Publish c p t) = ([], eng\<lparr>store := snd (publish (store eng) c p t)\<rparr>)"
  using assms(2) by (simp add: channel_log_append(1)[OF assms(1)] deliver_def Let_def)

lemma run_publishes_unsubscribed:
  "channel_log eng c \<Longrightarrow> registry eng = empty_registry \<Longrightarrow>
   \<exists>eng'. run eng (map (\<lambda>(p, t). Publish c p t) before) = ([], eng')
     \<and> channel_log eng' c \<and> registry eng' = empty_registry
     \<and> batch_size eng' = batch_size eng
     \<and> map payload (rows (store eng')) = map payload (rows (store eng)) @ map fst before"
proof (induction before arbitrary: eng)
  case Nil
  then show ?case by simp
next
  case (Cons x before)
  obtain p t where x: "x = (p, t)" by (cases x)
  define eng1 where "eng1 = eng\<lparr>store := snd (publish (store eng) c p t)\<rparr>"
  have nr: "registrations (registry eng) = []" using Cons.prems(2) by (simp add: empty_registry_def)
  have s: "step eng (Publish c p t) = ([], eng1)"
    unfolding eng1_def by (rule step_publish_unsubscribed[OF Cons.prems(1) nr])
  have l1: "channel_log eng1 c" unfolding eng1_def by (rule channel_log_append(2)[OF Cons.prems(1)])
  have r1: "registry eng1 = empty_registry" "batch_size eng1 = batch_size eng"
    using Cons.prems(2) by (simp_all add: eng1_def)
  have p1: "map payload (rows (store eng1)) = map payload (rows (store eng)) @ [p]"
    by (simp add: eng1_def channel_log_append(1)[OF Cons.prems(1)])
  obtain eng' where e: "run eng1 (map (\<lambda>(p, t). Publish c p t) before) = ([], eng')"
      "channel_log eng' c" "registry eng' = empty_registry" "batch_size eng' = batch_size eng1"
      "map payload (rows (store eng')) = map payload (rows (store eng1)) @ map fst before"
    using Cons.IH[OF l1 r1(1)] by blast
  show ?case
    using s e r1 p1 by (simp add: x)
qed

lemma step_register_earliest:
  assumes lg: "channel_log eng c" and er: "registry eng = empty_registry"
    and bs: "0 < batch_size eng"
    and r: "r = \<lparr>r_consumer_id = cid, r_channels = [c], r_callback = cb\<rparr>"
    and cb: "\<forall>n f. cb n f = None"
  shows "\<exists>eng'. step eng (Register r EARLIEST)
            = (map (\<lambda>n. (cid, n, True)) (rows (store eng)), eng')
          \<and> in_step eng' r c \<and> store eng' = store eng"
proof -
  define reg' where "reg' = (registry eng)\<lparr>registrations := [r],
     checkpoints := (\<lambda>k. if k = (cid, c) then Some 0 else None)\<rparr>"
  define eng1 where "eng1 = eng\<lparr>registry := reg'\<rparr>"
  have rg: "register (store eng) (registry eng) r EARLIEST = Inr reg'"
    unfolding reg'_def using er
    by (auto simp: register_def r empty_registry_def fun_eq_iff)
  have fnd: "find (\<lambda>x. r_consumer_id x = cid) (registrations (registry eng1)) = Some r"
    by (simp add: eng1_def reg'_def r)
  have cbr: "\<forall>n. r_callback r n True = None" using cb by (simp add: r)
  have av: "available (store eng1)" and oc: "\<forall>n\<in>set (rows (store eng1)). channel_n n = c"
    and sq: "map sequence (rows (store eng1)) = [1..<Suc (last_sequence (store eng) c)]"
    using lg by (simp_all add: channel_log_def eng1_def)
  have cp0: "checkpoint (registry eng1) (r_consumer_id r) c = 0"
    by (simp add: eng1_def reg'_def checkpoint_def r)
  have bs1: "0 < batch_size eng1" using bs by (simp add: eng1_def)
  note all = catch_up_channel_all[OF cbr av oc sq cp0 _ bs1, simplified]
  obtain ds eng2 where cu: "catch_up_channel eng1 r c = (ds, eng2)"
    by (cases "catch_up_channel eng1 r c")
  have ds: "ds = map (\<lambda>n. (n, None)) (rows (store eng))"
    and cp2: "checkpoint (registry eng2) cid c = last_sequence (store eng) c"
    using all cu by (simp_all add: eng1_def r)
  have fr: "store eng2 = store eng" "batch_size eng2 = batch_size eng"
    "registrations (registry eng2) = [r]"
    using catch_up_channel_frame(1,2,3)[of eng1 r c] cu by (simp_all add: eng1_def reg'_def)
  have cu2: "catch_up eng1 cid = (ds, eng2)"
    using fnd cu by (simp add: catch_up_def r)
  have st: "step eng (Register r EARLIEST) = (map (\<lambda>n. (cid, n, True)) (rows (store eng)), eng2)"
    using rg cu2 by (simp add: eng1_def[symmetric] r ds comp_def)
  have "in_step eng2 r c"
    using lg bs fr cp2 by (simp add: in_step_def channel_log_def r)
  with st fr(1) show ?thesis by blast
qed

lemma step_publish_in_step:
  assumes ins: "in_step eng r c" and cb: "\<forall>n f. r_callback r n f = None"
    and ch: "r_channels r = [c]"
  shows "\<exists>n eng'. step eng (Publish c p t) = ([(r_consumer_id r, n, False)], eng')
          \<and> in_step eng' r c \<and> rows (store eng') = rows (store eng) @ [n] \<and> payload n = p"
proof -
  have lg: "channel_log eng c" and bs: "0 < batch_size eng"
    and rg: "registrations (registry eng) = [r]"
    and cp: "checkpoint (registry eng) (r_consumer_id r) c = last_sequence (store eng) c"
    using ins by (simp_all add: in_step_def)
  define L where "L = last_sequence (store eng) c"
  define n where "n = \<lparr>sequence = Suc L, channel_n = c, payload = p, created_at = t\<rparr>"
  define s' where "s' = snd (publish (store eng) c p t)"
  have pb: "publish (store eng) c p t = (Inr (Suc L), s')"
    and rows': "rows s' = rows (store eng) @ [n]" and ls': "last_sequence s' c = Suc L"
    using channel_log_append(1)[OF lg, of p t] by (simp_all add: s'_def L_def n_def)
  define eng1 where "eng1 = eng\<lparr>store := s'\<rparr>"
  have lg1: "channel_log eng1 c"
    using channel_log_append(2)[OF lg, of p t] by (simp add: eng1_def s'_def)
  define eng2 where "eng2 = eng1\<lparr>registry := (registry eng1)\<lparr>checkpoints :=
       (checkpoints (registry eng1))((r_consumer_id r, c) := Some (Suc L))\<rparr>\<rparr>"
  have d1: "deliver_one eng1 r n False = (Delivered, eng2)"
    using cb cp by (simp add: deliver_one_result n_def eng1_def eng2_def L_def)
  have dl: "deliver eng1 n False = ([(r_consumer_id r, Delivered)], eng2)"
    using rg ch d1 by (simp add: deliver_def eng1_def n_def)
  have st: "step eng (Publish c p t) = ([(r_consumer_id r, n, False)], eng2)"
    using pb dl by (simp add: Let_def eng1_def[symmetric] n_def L_def)
  have "in_step eng2 r c"
    using lg1 bs rg ls'
    by (simp add: in_step_def channel_log_def eng2_def eng1_def checkpoint_def)
  moreover have "rows (store eng2) = rows (store eng) @ [n]"
    using rows' by (simp add: eng2_def eng1_def)
  moreover have "payload n = p" by (simp add: n_def)
  ultimately show ?thesis using st by blast
qed

lemma step_catch_up_in_step:
  assumes ins: "in_step eng r c" and ch: "r_channels r = [c]"
  shows "step eng (CatchUp (r_consumer_id r)) = ([], eng)"
proof -
  have lg: "channel_log eng c"
    and rg: "registrations (registry eng) = [r]"
    and cp: "checkpoint (registry eng) (r_consumer_id r) c = last_sequence (store eng) c"
    using ins by (simp_all add: in_step_def)
  have len: "length (rows (store eng)) = last_sequence (store eng) c"
    by (rule channel_log_length[OF lg])
  have "read_range (store eng) c (checkpoint (registry eng) (r_consumer_id r) c)
          (Some (batch_size eng)) = Inr []"
    using lg read_range_backlog[of "store eng" c "last_sequence (store eng) c"
        "last_sequence (store eng) c" "Some (batch_size eng)"] cp len
    by (simp add: channel_log_def)
  then have "catch_up_channel eng r c = ([], eng)" by (simp add: catch_up_channel_stop)
  then show ?thesis using rg ch by (simp add: catch_up_def)
qed

lemma run_in_step:
  assumes cb: "\<forall>n f. r_callback r n f = None" and ch: "r_channels r = [c]"
  shows "in_step eng r c \<Longrightarrow> list_all (publish_or_catch_up c (r_consumer_id r)) ops \<Longrightarrow>
         \<exists>ds eng'. run eng ops = (ds, eng') \<and> in_step eng' r c
           \<and> rows (store eng') = rows (store eng) @ map (\<lambda>(a, n, f). n) ds
           \<and> list_all (\<lambda>(a, n, f). a = r_consumer_id r \<and> \<not> f) ds
           \<and> map (\<lambda>(a, n, f). payload n) ds = published ops"
proof (induction ops arbitrary: eng)
  case Nil
  then show ?case by simp
next
  case (Cons x ops)
  have rest: "list_all (publish_or_catch_up c (r_consumer_id r)) ops" using Cons.prems(2) by simp
  show ?case
  proof (cases x)
    case (Publish c' p t)
    then have c': "c' = c" using Cons.prems(2) by simp
    obtain n eng1 where s: "step eng (Publish c p t) = ([(r_consumer_id r, n, False)], eng1)"
        "in_step eng1 r c" "rows (store eng1) = rows (store eng) @ [n]" "payload n = p"
      using step_publish_in_step[OF Cons.prems(1) cb ch] by blast
    obtain ds eng' where e: "run eng1 ops = (ds, eng')" "in_step eng' r c"
        "rows (store eng') = rows (store eng1) @ map (\<lambda>(a, n, f). n) ds"
        "list_all (\<lambda>(a, n, f). a = r_consumer_id r \<and> \<not> f) ds"
        "map (\<lambda>(a, n, f). payload n) ds = published ops"
      using Cons.IH[OF s(2) rest] by blast
    show ?thesis
      using s e by (simp add: Publish c')
  next
    case (CatchUp a)
    then have a: "a = r_consumer_id r" using Cons.prems(2) by simp
    have s: "step eng (CatchUp (r_consumer_id r)) = ([], eng)"
      by (rule step_catch_up_in_step[OF Cons.prems(1) ch])
    obtain ds eng' where e: "run eng ops = (ds, eng')" "in_step eng' r c"
        "rows (store eng') = rows (store eng) @ map (\<lambda>(a, n, f). n) ds"
        "list_all (\<lambda>(a, n, f). a = r_consumer_id r \<and> \<not> f) ds"
        "map (\<lambda>(a, n, f). payload n) ds = published ops"
      using Cons.IH[OF Cons.prems(1) rest] by blast
    show ?thesis
      using s e by (simp add: CatchUp a)
  qed (use Cons.prems(2) in simp_all)
qed

lemma run_append:
  "run eng (xs @ ys) =
     (case run eng xs of (ds, eng1) \<Rightarrow> (case run eng1 ys of (ds', eng2) \<Rightarrow> (ds @ ds', eng2)))"
  by (induction xs arbitrary: eng) (simp_all split: prod.splits)

lemma all_false_flags:
  "list_all (\<lambda>(a, n, f). a = cid \<and> \<not> f) ds \<Longrightarrow>
   map (\<lambda>(a, n, f). f) ds = replicate (length ds) False \<and> list_all (\<lambda>(a, n, f). a = cid) ds"
  by (induction ds) auto

text \<open>
  On an engine started empty, with any positive batch size: after any publishes on a
  channel, a consumer of that channel registers from \<open>EARLIEST\<close> with a callback that
  never fails; any publishes on the channel and catch-ups of the consumer follow, one
  after the other. Then the notifications handed to the consumer are exactly the rows of
  the store, in order, with the sequences 1, 2, ..., each once; those published before
  the registration are flagged as replay, the later ones as live.
\<close>

proposition earliest_consumer_sees_all:
  assumes b: "0 < b" and cb: "\<forall>n f. cb n f = None"
    and ops: "list_all (publish_or_catch_up c cid) later_ops"
  shows "\<exists>ds eng.
     run (new_engine b)
       (map (\<lambda>(p, t). Publish c p t) before
        @ Register \<lparr>r_consumer_id = cid, r_channels = [c], r_callback = cb\<rparr> EARLIEST
        # later_ops) = (ds, eng)
     \<and> map (\<lambda>(a, n, f). n) ds = rows (store eng)
     \<and> list_all (\<lambda>(a, n, f). a = cid) ds
     \<and> map (\<lambda>(a, n, f). f) ds
         = replicate (length before) True @ replicate (length (published later_ops)) False
     \<and> map sequence (rows (store eng)) = [1..<Suc (length (rows (store eng)))]
     \<and> map payload (rows (store eng)) = map fst before @ published later_ops"
proof -
  define r where "r = \<lparr>r_consumer_id = cid, r_channels = [c], r_callback = cb\<rparr>"
  have rid: "r_consumer_id r = cid" and rch: "r_channels r = [c]"
    and rcb: "\<forall>n f. r_callback r n f = None"
    using cb by (simp_all add: r_def)
  have l0: "channel_log (new_engine b) c"
    by (simp add: channel_log_def new_engine_def empty_outbox_def)
  have r0: "registry (new_engine b) = empty_registry" by (simp add: new_engine_def)
  obtain eng1 where e1: "run (new_engine b) (map (\<lambda>(p, t). Publish c p t) before) = ([], eng1)"
      "channel_log eng1 c" "registry eng1 = empty_registry" "batch_size eng1 = b"
      "map payload (rows (store eng1)) = map fst before"
    using run_publishes_unsubscribed[OF l0 r0, of before]
    by (auto simp: new_engine_def empty_outbox_def)
  have b1: "0 < batch_size eng1" using b e1(4) by simp
  obtain eng2 where e2: "step eng1 (Register r EARLIEST)
            = (map (\<lambda>n. (cid, n, True)) (rows (store eng1)), eng2)"
      "in_step eng2 r c" "store eng2 = store eng1"
    using step_register_earliest[OF e1(2,3) b1 r_def cb] by blast
  obtain ds3 eng3 where e3: "run eng2 later_ops = (ds3, eng3)" "in_step eng3 r c"
      "rows (store eng3) = rows (store eng2) @ map (\<lambda>(a, n, f). n) ds3"
      "list_all (\<lambda>(a, n, f). a = r_consumer_id r \<and> \<not> f) ds3"
      "map (\<lambda>(a, n, f). payload n) ds3 = published later_ops"
    using run_in_step[OF rcb rch e2(2)] ops rid by blast
  define ds where "ds = map (\<lambda>n. (cid, n, True)) (rows (store eng1)) @ ds3"
  have rn: "run (new_engine b) (map (\<lambda>(p, t). Publish c p t) before @ Register r EARLIEST # later_ops)
              = (ds, eng3)"
    using e1(1) e2(1) e3(1) by (simp add: run_append ds_def)
  have len1: "length (rows (store eng1)) = length before"
    using e1(5)[THEN arg_cong, of length] by simp
  have len3: "length ds3 = length (published later_ops)"
    using e3(5)[THEN arg_cong, of length] by simp
  note fl = all_false_flags[OF e3(4)[unfolded rid]]
  have c1: "map (\<lambda>(a, n, f). n) ds = rows (store eng3)"
    using e3(3) e2(3) by (simp add: ds_def comp_def)
  have c2: "list_all (\<lambda>(a, n, f). a = cid) ds"
    using fl by (auto simp add: ds_def list_all_iff)
  have c3: "map (\<lambda>(a, n, f). f) ds
         = replicate (length before) True @ replicate (length (published later_ops)) False"
    using fl len1 len3 by (simp add: ds_def comp_def map_replicate_const)
  have lg3: "channel_log eng3 c" using e3(2) by (simp add: in_step_def)
  have c4: "map sequence (rows (store eng3)) = [1..<Suc (length (rows (store eng3)))]"
    using lg3 channel_log_length[OF lg3] by (simp add: channel_log_def del: upt_Suc)
  have "map payload (map (\<lambda>(a, n, f). n) ds3) = published later_ops"
    using e3(5) by (simp add: comp_def case_prod_unfold)
  then have c5: "map payload (rows (store eng3)) = map fst before @ published later_ops"
    using e3(3) e2(3) e1(5) by simp
  show ?thesis
    using rn c1 c2 c3 c4 c5 unfolding r_def by blast
qed

proposition earliest_consumer_sees_all_example:
  "(0::nat) < 2 \<and> (\<forall>n f. always_ok n f = None)
   \<and> list_all (publish_or_catch_up ''data_change'' ''audit'')
        [Publish ''data_change'' (PStr ''c'') 3, CatchUp ''audit'',
         Publish ''data_change'' (PStr ''d'') 4]
   \<and> (\<exists>ds eng.
     run (new_engine 2)
       (map (\<lambda>(p, t). Publish ''data_change'' p t) [(PStr ''a'', 1), (PStr ''b'', 2)]
        @ Register \<lparr>r_consumer_id = ''audit'', r_channels = [''data_change''],
                    r_callback = always_ok\<rparr> EARLIEST
        # [Publish ''data_change'' (PStr ''c'') 3, CatchUp ''audit'',
           Publish ''data_change'' (PStr ''d'') 4]) = (ds, eng)
     \<and> map (\<lambda>(a, n, f). n) ds = rows (store eng)
     \<and> map (\<lambda>(a, n, f). f) ds = [True, True, False, False]
     \<and> map sequence (rows (store eng)) = [1, 2, 3, 4]
     \<and> map payload (rows (store eng)) = [PStr ''a'', PStr ''b'', PStr ''c'', PStr ''d''])"
proof -
  have a: "(0::nat) < 2" by simp
  have k: "\<forall>n f. always_ok n f = None" by (simp add: always_ok_def)
  have o: "list_all (publish_or_catch_up ''data_change'' ''audit'')
        [Publish ''data_change'' (PStr ''c'') 3, CatchUp ''audit'',
         Publish ''data_change'' (PStr ''d'') 4]" by simp
  obtain ds eng where t: "run (new_engine 2)
       (map (\<lambda>(p, t). Publish ''data_change'' p t) [(PStr ''a'', 1), (PStr ''b'', 2)]
        @ Register \<lparr>r_consumer_id = ''audit'', r_channels = [''data_change''],
                    r_callback = always_ok\<rparr> EARLIEST
        # [Publish ''data_change'' (PStr ''c'') 3, CatchUp ''audit'',
           Publish ''data_change'' (PStr ''d'') 4]) = (ds, eng)"
     "map (\<lambda>(a, n, f). n) ds = rows (store eng)"
     "map (\<lambda>(a, n, f). f) ds
         = replicate (length [(PStr ''a'', 1::nat), (PStr ''b'', 2)]) True
           @ replicate (length (published [Publish ''data_change'' (PStr ''c'') 3, CatchUp ''audit'',
                                          Publish ''data_change'' (PStr ''d'') 4])) False"
     "map sequence (rows (store eng)) = [1..<Suc (length (rows (store eng)))]"
     "map payload (rows (store eng)) = map fst [(PStr ''a'', 1::nat), (PStr ''b'', 2)]
         @ published [Publish ''data_change'' (PStr ''c'') 3, CatchUp ''audit'',
                      Publish ''data_change'' (PStr ''d'') 4]"
    using earliest_consumer_sees_all [OF a k o, of "[(PStr ''a'', 1), (PStr ''b'', 2)]"] by blast
  have p: "map payload (rows (store eng)) = [PStr ''a'', PStr ''b'', PStr ''c'', PStr ''d'']"
    using t(5) by simp
  from p[THEN arg_cong, of length] have "length (rows (store eng)) = 4" by simp
  then have s: "map sequence (rows (store eng)) = [1, 2, 3, 4]"
    using t(4) by (simp add: upt_rec)
  have f: "map (\<lambda>(a, n, f). f) ds = [True, True, False, False]"
    using t(3) by (simp add: numeral_2_eq_2)
  have ex: "\<exists>ds eng.
     run (new_engine 2)
       (map (\<lambda>(p, t). Publish ''data_change'' p t) [(PStr ''a'', 1), (PStr ''b'', 2)]
        @ Register \<lparr>r_consumer_id = ''audit'', r_channels = [''data_change''],
                    r_callback = always_ok\<rparr> EARLIEST
        # [Publish ''data_change'' (PStr ''c'') 3, CatchUp ''audit'',
           Publish ''data_change'' (PStr ''d'') 4]) = (ds, eng)
     \<and> map (\<lambda>(a, n, f). n) ds = rows (store eng)
     \<and> map (\<lambda>(a, n, f). f) ds = [True, True, False, False]
     \<and> map sequence (rows (store eng)) = [1, 2, 3, 4]
     \<and> map payload (rows (store eng)) = [PStr ''a'', PStr ''b'', PStr ''c'', PStr ''d'']"
    by (rule exI[of _ ds], rule exI[of _ eng]) (intro conjI t(1) t(2) f s p)
  show ?thesis by (rule conjI[OF a conjI[OF k conjI[OF o ex]]])
qed

end
